theory Spec2Isabelle
  imports Main "HOL-Library.AList" "HOL-Library.Multiset"
begin

section \<open>Values, errors and recipe classes\<close>

text \<open>
  Run-time values of the kitchen: JSON data plus JavaScript's \<open>undefined\<close>. Numbers
  are integers here (token counts, budgets and priorities are integral in every use the
  sources make of them); object members are kept in insertion order.
\<close>

datatype jsval =
    JUndefined
  | JNull
  | JBool bool
  | JNum int
  | JStr string
  | JArr "jsval list"
  | JObj "(string \<times> jsval) list"

text \<open>
  Every \<open>throw\<close> of \<open>Chef.ts\<close> is a constructor. The sources throw plain \<open>Error\<close>
  objects that differ in their message only; the constructors carry the part of the
  message that varies.
  \<^item> \<open>UnresolvedToken t\<close>: \<open>prepare\<close>, "Kitchen: no provider found for t";
  \<^item> \<open>ContractViolation p\<close>: \<open>invokeRecipe\<close>, "Kitchen: @ingredient(p) resolved to undefined.";
  \<^item> \<open>TraceNotFound t\<close>: \<open>trace\<close>, "Chef.trace: token t not found in pantry or cookbook.";
  \<^item> \<open>TypeError\<close>: the fallback tokenizer reading \<open>.length\<close> of \<open>undefined\<close>;
  \<^item> \<open>Thrown m\<close>: whatever caller-supplied code (a recipe's \<open>prepare\<close>, a pantry
    supplier, a detail profile, a tokenizer, a ranker) throws.
\<close>

datatype error =
    UnresolvedToken string
  | ContractViolation string
  | TraceNotFound string
  | TypeError
  | Thrown string

text \<open>
  How a call ends: it returns, it throws, or it has no room left on the call stack.
  JavaScript reports the last as a \<open>RangeError\<close> ("Maximum call stack size
  exceeded"), which unwinds the stack like any other error and is caught by a \<open>catch\<close>
  clause like any other. It is kept apart from the errors here because it depends on
  the room the stack has and not on the program alone.
\<close>

datatype 'a outcome = Returned 'a | Threw error | Overflow

text \<open>Caller-supplied code returns or throws.\<close>

definition completed :: "error + 'a \<Rightarrow> 'a outcome" where
  "completed r = (case r of Inl e \<Rightarrow> Threw e | Inr v \<Rightarrow> Returned v)"

record IngredientDescriptor =
  rootToken :: string
  jsonPath :: "string option"

datatype priority_tag = PriorityNum int | PriorityStr string

type_synonym ctor_ref = nat

text \<open>
  A recipe class (\<open>RecipeCtor\<close>): its \<open>name\<close>, the optional static \<open>token\<close>, the static
  hints of \<open>RecipeStaticHints\<close> that \<open>Chef\<close> reads, the \<open>@ingredient\<close> metadata of its
  \<open>prepare\<close> method (an array that may have holes: parameters without a decorator), and
  the \<open>prepare\<close> method itself. Caller-supplied code is a function that returns a value
  or throws; it terminates and does not call back into the chef.
\<close>

record RecipeCtor =
  ctor_name :: string
  ctor_token :: "string option"
  priority :: "priority_tag option"
  compressible :: bool
  summaryRecipe :: "string option"
  detailProfiles :: "(string \<rightharpoonup> (jsval \<Rightarrow> error + jsval)) option"
  paramDescs :: "IngredientDescriptor option list"
  recipe_prepare :: "jsval list \<Rightarrow> error + jsval"

datatype ProviderOrValue =
    PantryValue jsval
  | PantryProvider "unit \<Rightarrow> error + jsval"

text \<open>
  What lives outside one \<open>Chef\<close> instance: the static \<open>Chef.cookbook\<close> (a \<open>Map\<close>, so an
  association list in insertion order, from token to a reference to the class), the
  classes behind the references, and the two library functions the sources call:
  \<open>JSONPath\<close> of jsonpath-plus (with \<open>wrap: false\<close>) and \<open>JSON.stringify\<close>, whose result
  is \<open>undefined\<close> (\<open>None\<close>) for some arguments.
\<close>

record kitchen =
  cookbook :: "(string \<times> ctor_ref) list"
  classes :: "ctor_ref \<Rightarrow> RecipeCtor"
  JSONPath :: "jsval \<Rightarrow> string \<Rightarrow> jsval"
  JSON_stringify :: "jsval \<Rightarrow> string option"

text \<open>
  One \<open>Chef\<close> instance: its three private maps. \<open>prepare_calls\<close> is a ghost field, not
  in the sources: the classes whose \<open>prepare\<close> method was called, in call order.
\<close>

record Chef =
  instanceCache :: "ctor_ref set"
  valueCache :: "ctor_ref \<rightharpoonup> jsval"
  pantry :: "string \<rightharpoonup> ProviderOrValue"
  prepare_calls :: "ctor_ref list"

datatype pantry_init = Raw jsval | Supplier "unit \<Rightarrow> error + jsval"

text \<open>The constructor: a function among the initial entries is a supplier.\<close>

definition new_Chef :: "(string \<times> pantry_init) list \<Rightarrow> Chef" where
  "new_Chef pantryInit =
     \<lparr> instanceCache = {},
       valueCache = Map.empty,
       pantry = fold (\<lambda>(token, thing) m.
                  case thing of
                    Supplier g \<Rightarrow> m(token \<mapsto> PantryProvider g)
                  | Raw v \<Rightarrow> m(token \<mapsto> PantryValue v)) pantryInit Map.empty,
       prepare_calls = [] \<rparr>"

section \<open>Cookbook.ts: ingredient specs and registration\<close>

text \<open>JavaScript's \<open>trim\<close>, on the ASCII white space.\<close>

definition is_space :: "char \<Rightarrow> bool" where
  "is_space c = (c \<in> set [CHR '' '', CHR 0x09, CHR 0x0A, CHR 0x0B, CHR 0x0C, CHR 0x0D])"

definition trim :: "string \<Rightarrow> string" where
  "trim s = rev (dropWhile is_space (rev (dropWhile is_space s)))"

text \<open>
  \<open>parseIngredientSpec\<close>: split at the first dot; "Foo.bar[0].baz" becomes the root token
  "Foo" and the path "$.bar[0].baz".
\<close>

definition parseIngredientSpec :: "string \<Rightarrow> IngredientDescriptor" where
  "parseIngredientSpec spec =
     (if CHR ''.'' \<notin> set spec
      then \<lparr> rootToken = spec, jsonPath = None \<rparr>
      else
        let root = trim (takeWhile (\<lambda>c. c \<noteq> CHR ''.'') spec);
            tail = trim (drop 1 (dropWhile (\<lambda>c. c \<noteq> CHR ''.'') spec))
        in \<lparr> rootToken = root, jsonPath = Some (''$.'' @ tail) \<rparr>)"

text \<open>
  The \<open>@cookbook\<close> decorator: the class is stored under its static token, or else its
  name. \<open>Map.set\<close> keeps the position of a key that is already there.
\<close>

definition register :: "ctor_ref \<Rightarrow> kitchen \<Rightarrow> kitchen" where
  "register c K =
     (let token = (case ctor_token (classes K c) of Some t \<Rightarrow> t | None \<Rightarrow> ctor_name (classes K c))
      in K\<lparr> cookbook := AList.update token c (cookbook K) \<rparr>)"

section \<open>Chef.ts: the resolver\<close>

text \<open>Truthiness of a \<open>string | undefined\<close>: the empty string is falsy.\<close>

fun truthy :: "string option \<Rightarrow> bool" where
  "truthy None = False"
| "truthy (Some s) = (s \<noteq> [])"

text \<open>The text \<open>rootToken + (jsonPath ? "." + jsonPath.slice(2) : "")\<close> of an error message.\<close>

definition ingredient_text :: "IngredientDescriptor \<Rightarrow> string" where
  "ingredient_text desc =
     rootToken desc @ (if truthy (jsonPath desc) then ''.'' @ drop 2 (the (jsonPath desc)) else [])"

text \<open>
  The value handed on for an ingredient whose root token resolved to \<open>rootVal\<close>: the
  root value, or what the sub-path extracts from it when a sub-path is declared.
\<close>

definition finalVal :: "kitchen \<Rightarrow> IngredientDescriptor \<Rightarrow> jsval \<Rightarrow> jsval" where
  "finalVal K desc rootVal =
     (if truthy (jsonPath desc) then JSONPath K rootVal (the (jsonPath desc)) else rootVal)"

definition getInstance :: "Chef \<Rightarrow> ctor_ref \<Rightarrow> Chef" where
  "getInstance s c = s\<lparr> instanceCache := insert c (instanceCache s) \<rparr>"

text \<open>
  \<open>prepare\<close>, \<open>invokeRecipe\<close> and the loop of \<open>invokeRecipe\<close> over the ingredient
  descriptors. The sources bound the recursion nowhere; what ends a recursion that is
  too deep is the call stack. The first argument is the room on the stack: the depth of
  nested \<open>prepare\<close> calls it still holds. A call for which no room is left ends with
  \<open>Overflow\<close>, which every caller hands on as it hands on an error. A result comes
  with the instance as the call left it, also when the call did not return a value.
\<close>

fun prepare :: "nat \<Rightarrow> kitchen \<Rightarrow> Chef \<Rightarrow> string \<Rightarrow> jsval outcome \<times> Chef"
and invokeRecipe :: "nat \<Rightarrow> kitchen \<Rightarrow> Chef \<Rightarrow> ctor_ref \<Rightarrow> jsval outcome \<times> Chef"
and resolveArgs :: "nat \<Rightarrow> kitchen \<Rightarrow> Chef \<Rightarrow> IngredientDescriptor option list \<Rightarrow> jsval list
                    \<Rightarrow> jsval list outcome \<times> Chef"
where
  "prepare 0 K s token = (Overflow, s)"
| "prepare (Suc n) K s token =
     (case pantry s token of
        Some (PantryValue v) \<Rightarrow> (Returned v, s)
      | Some (PantryProvider get) \<Rightarrow> (completed (get ()), s)
      | None \<Rightarrow>
          (case map_of (cookbook K) token of
             None \<Rightarrow> (Threw (UnresolvedToken token), s)
           | Some ctor \<Rightarrow>
               (case valueCache s ctor of
                  Some v \<Rightarrow> (Returned v, s)
                | None \<Rightarrow>
                    (case invokeRecipe n K s ctor of
                       (Returned cooked, s') \<Rightarrow>
                         (Returned cooked, s'\<lparr> valueCache := (valueCache s')(ctor \<mapsto> cooked) \<rparr>)
                     | (Threw e, s') \<Rightarrow> (Threw e, s')
                     | (Overflow, s') \<Rightarrow> (Overflow, s')))))"
| "invokeRecipe n K s ctor =
     (case resolveArgs n K (getInstance s ctor) (paramDescs (classes K ctor)) [] of
        (Returned resolvedArgs, s') \<Rightarrow>
          (completed (recipe_prepare (classes K ctor) resolvedArgs),
           s'\<lparr> prepare_calls := prepare_calls s' @ [ctor] \<rparr>)
      | (Threw e, s') \<Rightarrow> (Threw e, s')
      | (Overflow, s') \<Rightarrow> (Overflow, s'))"
| "resolveArgs n K s [] resolvedArgs = (Returned resolvedArgs, s)"
| "resolveArgs n K s (None # descs) resolvedArgs =
     resolveArgs n K s descs (resolvedArgs @ [JUndefined])"
| "resolveArgs n K s (Some desc # descs) resolvedArgs =
     (case prepare n K s (rootToken desc) of
        (Returned rootVal, s') \<Rightarrow>
          (if finalVal K desc rootVal = JUndefined
           then (Threw (ContractViolation (ingredient_text desc)), s')
           else resolveArgs n K s' descs (resolvedArgs @ [finalVal K desc rootVal]))
      | (Threw e, s') \<Rightarrow> (Threw e, s')
      | (Overflow, s') \<Rightarrow> (Overflow, s'))"

section \<open>Chef.ts: the lineage tracer\<close>

record TraceEntry =
  trace_token :: string
  providerName :: string
  deps :: "(string \<times> string) list"

text \<open>
  \<open>trace\<close> and its local function \<open>visit\<close>, with the loop of \<open>visit\<close> over the
  descriptors. \<open>seen\<close> is a \<open>Map\<close> from token to entry, in insertion order; a dependency
  is the pair of its token and its \<open>via\<close> text. An entry is stored in \<open>seen\<close> only
  after the dependencies of its token were visited. The first argument is the room on
  the stack, as for \<open>prepare\<close>.
\<close>

definition via_text :: "IngredientDescriptor \<Rightarrow> string" where
  "via_text desc =
     (let prettyPath = (if truthy (jsonPath desc) then ''.'' @ drop 2 (the (jsonPath desc)) else [])
      in ''@ingredient('' @ [CHR 0x22] @ rootToken desc @ prettyPath @ [CHR 0x22] @ '')'')"

fun visit :: "nat \<Rightarrow> kitchen \<Rightarrow> Chef \<Rightarrow> (string \<times> TraceEntry) list \<Rightarrow> string
              \<Rightarrow> (string \<times> TraceEntry) list outcome"
and visitDeps :: "nat \<Rightarrow> kitchen \<Rightarrow> Chef \<Rightarrow> (string \<times> TraceEntry) list
                  \<Rightarrow> IngredientDescriptor option list \<Rightarrow> (string \<times> string) list
                  \<Rightarrow> ((string \<times> string) list \<times> (string \<times> TraceEntry) list) outcome"
where
  "visit 0 K s seen token = Overflow"
| "visit (Suc n) K s seen token =
     (if map_of seen token \<noteq> None then Returned seen
      else if pantry s token \<noteq> None
      then Returned (AList.update token
                        \<lparr> trace_token = token, providerName = ''pantry'', deps = [] \<rparr> seen)
      else
        (case map_of (cookbook K) token of
           None \<Rightarrow> Threw (TraceNotFound token)
         | Some ctor \<Rightarrow>
             (case visitDeps n K s seen (paramDescs (classes K ctor)) [] of
                Returned (ds, seen') \<Rightarrow>
                  Returned (AList.update token
                               \<lparr> trace_token = token,
                                 providerName = ctor_name (classes K ctor),
                                 deps = ds \<rparr> seen')
              | Threw e \<Rightarrow> Threw e
              | Overflow \<Rightarrow> Overflow)))"
| "visitDeps n K s seen [] ds = Returned (ds, seen)"
| "visitDeps n K s seen (None # descs) ds = visitDeps n K s seen descs ds"
| "visitDeps n K s seen (Some desc # descs) ds =
     (case visit n K s seen (rootToken desc) of
        Returned seen' \<Rightarrow>
          visitDeps n K s seen' descs (ds @ [(rootToken desc, via_text desc)])
      | Threw e \<Rightarrow> Threw e
      | Overflow \<Rightarrow> Overflow)"

definition trace :: "nat \<Rightarrow> kitchen \<Rightarrow> Chef \<Rightarrow> string \<Rightarrow> TraceEntry list outcome" where
  "trace n K s rootTok =
     (case visit n K s [] rootTok of
        Returned seen \<Rightarrow> Returned (map snd seen)
      | Threw e \<Rightarrow> Threw e
      | Overflow \<Rightarrow> Overflow)"

section \<open>Chef.ts: cook, first pass (materialising the order)\<close>

datatype OrderItem = Bare string | Detailed string "string option"

text \<open>
  A priority score. A ranker returns a number, by its type; the fallback ranker can
  return something else: its table is an object literal, and for the tags
  \<open>constructor\<close> and \<open>__proto__\<close> the lookup finds the member that every object
  inherits under that key (the function \<open>Object\<close>, the object \<open>Object.prototype\<close>),
  which is not \<open>undefined\<close> and is returned as the score.
\<close>

datatype score = Num int | Inherited string

text \<open>
  The options of \<open>cook\<close>. The tokenizer receives the rendered text, which is
  \<open>undefined\<close> (\<open>None\<close>) when \<open>JSON.stringify\<close> gave \<open>undefined\<close>; the ranker
  receives the fields \<open>token\<close>, \<open>recipeName\<close>, \<open>priorityTag\<close> and \<open>index\<close> of its
  argument. Both are caller-supplied code and may throw.
\<close>

type_synonym count_fn = "string option \<Rightarrow> error + int"
type_synonym rank_fn = "string \<Rightarrow> string \<Rightarrow> priority_tag option \<Rightarrow> nat \<Rightarrow> error + score"

record cook_options =
  order :: "OrderItem list option"
  budget :: "int option"
  countTokens :: "count_fn option"
  rankPriority :: "rank_fn option"
  explain :: "bool option"

text \<open>The fallback tokenizer: \<open>Math.ceil(text.length / 4)\<close>.\<close>

definition defaultCountTokens :: count_fn where
  "defaultCountTokens text =
     (case text of
        None \<Rightarrow> Inl TypeError
      | Some t \<Rightarrow> Inr ((int (length t) + 3) div 4))"

text \<open>\<open>toLowerCase\<close> on ASCII letters.\<close>

definition toLowerCase :: "string \<Rightarrow> string" where
  "toLowerCase t =
     map (\<lambda>c. let k = (of_char c :: nat)
              in if 65 \<le> k \<and> k \<le> 90 then char_of (k + 32) else c) t"

text \<open>
  \<open>defaultRankPriority\<close>: a numeric tag is the score, a tag of the table has the
  score of the table, every other tag and no tag have 50, except the two keys that
  every object inherits.
\<close>

definition priority_table :: "(string \<times> int) list" where
  "priority_table =
     [(''critical'', 100), (''must'', 90), (''high'', 75), (''normal'', 50),
      (''medium'', 50), (''low'', 25), (''optional'', 10)]"

definition inherited_keys :: "string list" where
  "inherited_keys = [''constructor'', ''__proto__'']"

definition defaultRankPriority :: rank_fn where
  "defaultRankPriority tok rname ptag idx =
     (case ptag of
        Some (PriorityNum k) \<Rightarrow> Inr (Num k)
      | Some (PriorityStr t) \<Rightarrow>
          (case map_of priority_table (toLowerCase t) of
             Some v \<Rightarrow> Inr (Num v)
           | None \<Rightarrow>
               if toLowerCase t \<in> set inherited_keys
               then Inr (Inherited (toLowerCase t))
               else Inr (Num 50))
      | None \<Rightarrow> Inr (Num 50))"

text \<open>
  \<open>orderListNormalized\<close>: triples of token, detail and index. An order that is absent
  or empty is replaced by the whole cookbook.
\<close>

definition normalizeOrder :: "kitchen \<Rightarrow> OrderItem list option \<Rightarrow> (string \<times> string \<times> nat) list" where
  "normalizeOrder K ord =
     (if ord \<noteq> None \<and> length (the ord) > 0
      then map (\<lambda>(i, item).
                 case item of
                   Bare t \<Rightarrow> (t, ''full'', i)
                 | Detailed t d \<Rightarrow> (t, (case d of Some d' \<Rightarrow> d' | None \<Rightarrow> ''full''), i))
               (enumerate 0 (the ord))
      else map (\<lambda>(i, tok). (tok, ''full'', i)) (enumerate 0 (map fst (cookbook K))))"

record PreparedItem =
  token :: string
  detailRequested :: string
  baselineRendered :: "string option"
  baselineCost :: int
  compressedRendered :: "string option"
  compressedCost :: "int option"
  compressionNote :: "string option"
  item_trace :: "TraceEntry list option"
  recipeName :: string
  priorityTag :: "priority_tag option"
  priorityScore :: score
  index :: nat

text \<open>\<open>typeof v === "string" ? v : JSON.stringify(v)\<close>.\<close>

definition render :: "kitchen \<Rightarrow> jsval \<Rightarrow> string option" where
  "render K v = (case v of JStr t \<Rightarrow> Some t | _ \<Rightarrow> JSON_stringify K v)"

text \<open>The detail profile of the class for the requested detail, if there is one.\<close>

definition applyDetailProfile :: "kitchen \<Rightarrow> ctor_ref option \<Rightarrow> string \<Rightarrow> jsval \<Rightarrow> error + jsval" where
  "applyDetailProfile K ctor detail v =
     (case ctor of
        None \<Rightarrow> Inr v
      | Some c \<Rightarrow>
          (case detailProfiles (classes K c) of
             None \<Rightarrow> Inr v
           | Some profiles \<Rightarrow>
               (case profiles detail of
                  None \<Rightarrow> Inr v
                | Some profileFn \<Rightarrow> profileFn v)))"

text \<open>
  The \<open>try\<close> block that probes the summary recipe: the three variables
  \<open>compressedRendered\<close>, \<open>compressedCost\<close> and \<open>compressionNote\<close> as the block leaves
  them. The \<open>catch\<close> clause catches whatever the block throws, the \<open>RangeError\<close> of
  an exhausted stack included, and only logs.
\<close>

definition probeSummary :: "nat \<Rightarrow> kitchen \<Rightarrow> Chef \<Rightarrow> count_fn \<Rightarrow> string
     \<Rightarrow> (string option \<times> int option \<times> string option) \<times> Chef" where
  "probeSummary n K s countTokensFn summaryToken =
     (case prepare n K s summaryToken of
        (Returned summaryVal, s') \<Rightarrow>
          (let summaryStr = render K summaryVal
           in case countTokensFn summaryStr of
                Inl e \<Rightarrow> ((summaryStr, None, None), s')
              | Inr c \<Rightarrow> ((summaryStr, Some c, Some (''compressed via '' @ summaryToken)), s'))
      | (Threw e, s') \<Rightarrow> ((None, None, None), s')
      | (Overflow, s') \<Rightarrow> ((None, None, None), s'))"

definition probeCompressed :: "nat \<Rightarrow> kitchen \<Rightarrow> Chef \<Rightarrow> count_fn \<Rightarrow> ctor_ref option
     \<Rightarrow> (string option \<times> int option \<times> string option) \<times> Chef" where
  "probeCompressed n K s countTokensFn ctor =
     (case ctor of
        None \<Rightarrow> ((None, None, None), s)
      | Some c \<Rightarrow>
          if compressible (classes K c) \<and> truthy (summaryRecipe (classes K c))
          then probeSummary n K s countTokensFn (the (summaryRecipe (classes K c)))
          else ((None, None, None), s))"

text \<open>The body of the first loop of \<open>cook\<close>, for one item of the normalised order.\<close>

definition prepareItem :: "nat \<Rightarrow> kitchen \<Rightarrow> Chef \<Rightarrow> count_fn \<Rightarrow> rank_fn \<Rightarrow> bool
     \<Rightarrow> string \<times> string \<times> nat \<Rightarrow> PreparedItem outcome \<times> Chef" where
  "prepareItem n K s countTokensFn rankPriorityFn expl item =
     (case item of (tok, detail, idx) \<Rightarrow>
      (case prepare n K s tok of
        (Threw e, s1) \<Rightarrow> (Threw e, s1)
      | (Overflow, s1) \<Rightarrow> (Overflow, s1)
      | (Returned v, s1) \<Rightarrow>
          (let ctor = map_of (cookbook K) tok;
               rname = (case ctor of Some c \<Rightarrow> ctor_name (classes K c) | None \<Rightarrow> ''pantry'');
               ptag = (case ctor of Some c \<Rightarrow> priority (classes K c) | None \<Rightarrow> None)
           in case applyDetailProfile K ctor detail v of
                Inl e \<Rightarrow> (Threw e, s1)
              | Inr materialized \<Rightarrow>
                  (case countTokensFn (render K materialized) of
                     Inl e \<Rightarrow> (Threw e, s1)
                   | Inr bcost \<Rightarrow>
                       (case probeCompressed n K s1 countTokensFn ctor of
                          ((crendered, ccost, cnote), s2) \<Rightarrow>
                            (case rankPriorityFn tok rname ptag idx of
                               Inl e \<Rightarrow> (Threw e, s2)
                             | Inr rank \<Rightarrow>
                                 (case (if expl then map_outcome Some (trace n K s2 tok)
                                        else Returned None) of
                                    Threw e \<Rightarrow> (Threw e, s2)
                                  | Overflow \<Rightarrow> (Overflow, s2)
                                  | Returned traceEntries \<Rightarrow>
                                      (Returned \<lparr> token = tok,
                                                  detailRequested = detail,
                                                  baselineRendered = render K materialized,
                                                  baselineCost = bcost,
                                                  compressedRendered = crendered,
                                                  compressedCost = ccost,
                                                  compressionNote = cnote,
                                                  item_trace = traceEntries,
                                                  recipeName = rname,
                                                  priorityTag = ptag,
                                                  priorityScore = rank,
                                                  index = idx \<rparr>, s2))))))))"

fun prepareItems :: "nat \<Rightarrow> kitchen \<Rightarrow> Chef \<Rightarrow> count_fn \<Rightarrow> rank_fn \<Rightarrow> bool
     \<Rightarrow> (string \<times> string \<times> nat) list \<Rightarrow> PreparedItem list
     \<Rightarrow> PreparedItem list outcome \<times> Chef" where
  "prepareItems n K s cf rf expl [] preparedItems = (Returned preparedItems, s)"
| "prepareItems n K s cf rf expl (item # items) preparedItems =
     (case prepareItem n K s cf rf expl item of
        (Returned p, s') \<Rightarrow> prepareItems n K s' cf rf expl items (preparedItems @ [p])
      | (Threw e, s') \<Rightarrow> (Threw e, s')
      | (Overflow, s') \<Rightarrow> (Overflow, s'))"

section \<open>Chef.ts: cook, second pass (selection under the budget)\<close>

record PlanDecision =
  plan_include :: bool
  forced :: bool
  usedCompressed :: bool
  usedRendered :: "string option"
  usedCost :: int
  reason :: string

text \<open>\<open>plan\<close> is a \<open>Map\<close> from the index of an item to its decision.\<close>

type_synonym plan = "nat \<rightharpoonup> PlanDecision"

text \<open>Without a budget: the decision for an item, and the body of the loop over all items.\<close>

definition unbudgeted :: "PreparedItem \<Rightarrow> PlanDecision" where
  "unbudgeted item =
     \<lparr> plan_include = True,
       forced = (if index item = 0 then True else False),
       usedCompressed = False,
       usedRendered = baselineRendered item,
       usedCost = baselineCost item,
       reason = ''no budget provided'' \<rparr>"

definition planUnbudgeted :: "plan \<times> int \<Rightarrow> PreparedItem \<Rightarrow> plan \<times> int" where
  "planUnbudgeted acc item =
     (case acc of (pl, plannedTotal) \<Rightarrow>
        (pl(index item \<mapsto> unbudgeted item), plannedTotal + baselineCost item))"

text \<open>With a budget: the decision for the first item.\<close>

definition planFirst :: "PreparedItem \<Rightarrow> PlanDecision" where
  "planFirst first =
     (if truthy (compressedRendered first) \<and> compressedCost first \<noteq> None
         \<and> the (compressedCost first) < baselineCost first
      then \<lparr> plan_include = True, forced = True, usedCompressed = True,
             usedRendered = compressedRendered first,
             usedCost = the (compressedCost first),
             reason = ''first item is always included (compressed to save budget)'' \<rparr>
      else \<lparr> plan_include = True, forced = True, usedCompressed = False,
             usedRendered = baselineRendered first,
             usedCost = baselineCost first,
             reason = ''first item is always included'' \<rparr>)"

text \<open>\<open>Math.min(a.baselineCost, a.compressedCost ?? Number.POSITIVE_INFINITY)\<close>.\<close>

definition minCost :: "PreparedItem \<Rightarrow> int" where
  "minCost a =
     (case compressedCost a of
        None \<Rightarrow> baselineCost a
      | Some c \<Rightarrow> min (baselineCost a) c)"

text \<open>
  The comparison function given to \<open>sort\<close>: negative when \<open>a\<close> goes first. The
  scores are compared with \<open>!==\<close> and subtracted; \<open>None\<close> is \<open>NaN\<close>, the difference
  of two scores that are not both numbers.
\<close>

fun differ :: "score \<Rightarrow> score \<Rightarrow> bool" where
  "differ (Num x) (Num y) = (x \<noteq> y)"
| "differ (Inherited k) (Inherited k') = (k \<noteq> k')"
| "differ (Num x) (Inherited k) = True"
| "differ (Inherited k) (Num y) = True"

fun minus_score :: "score \<Rightarrow> score \<Rightarrow> int option" where
  "minus_score (Num x) (Num y) = Some (x - y)"
| "minus_score (Num x) (Inherited k) = None"
| "minus_score (Inherited k) y = None"

definition compareCandidates :: "PreparedItem \<Rightarrow> PreparedItem \<Rightarrow> int option" where
  "compareCandidates a b =
     (if differ (priorityScore b) (priorityScore a)
      then minus_score (priorityScore b) (priorityScore a)
      else if minCost a \<noteq> minCost b then Some (minCost a - minCost b)
      else Some (int (index a) - int (index b)))"

text \<open>
  \<open>Array.prototype.sort\<close> with a comparison function: a stable sort, which reads a
  \<open>NaN\<close> from the comparison function as 0. The language leaves the algorithm open;
  for a consistent comparison function every stable sort gives the same array, here by
  insertion from the right. For a comparison function that is not consistent (as with
  scores that are no numbers) the language leaves the order open as well.
\<close>

definition sortCompare :: "('a \<Rightarrow> 'a \<Rightarrow> int option) \<Rightarrow> 'a \<Rightarrow> 'a \<Rightarrow> int" where
  "sortCompare cmp x y = (case cmp x y of None \<Rightarrow> 0 | Some v \<Rightarrow> v)"

fun insertBy :: "('a \<Rightarrow> 'a \<Rightarrow> int option) \<Rightarrow> 'a \<Rightarrow> 'a list \<Rightarrow> 'a list" where
  "insertBy cmp x [] = [x]"
| "insertBy cmp x (y # ys) =
     (if sortCompare cmp x y \<le> 0 then x # y # ys else y # insertBy cmp x ys)"

definition sortBy :: "('a \<Rightarrow> 'a \<Rightarrow> int option) \<Rightarrow> 'a list \<Rightarrow> 'a list" where
  "sortBy cmp xs = foldr (insertBy cmp) xs []"

definition candidates :: "PreparedItem list \<Rightarrow> PreparedItem list" where
  "candidates preparedItems = sortBy compareCandidates (drop 1 preparedItems)"

text \<open>With a budget: the body of the loop over the sorted candidates.\<close>

definition planCandidate :: "int \<Rightarrow> plan \<times> int \<Rightarrow> PreparedItem \<Rightarrow> plan \<times> int" where
  "planCandidate bud acc cand =
     (case acc of (pl, plannedTotal) \<Rightarrow>
        if plannedTotal + baselineCost cand \<le> bud
        then (pl(index cand \<mapsto>
                   \<lparr> plan_include = True, forced = False, usedCompressed = False,
                     usedRendered = baselineRendered cand,
                     usedCost = baselineCost cand,
                     reason = ''selected by priority within budget'' \<rparr>),
              plannedTotal + baselineCost cand)
        else if truthy (compressedRendered cand) \<and> compressedCost cand \<noteq> None
                \<and> plannedTotal + the (compressedCost cand) \<le> bud
        then (pl(index cand \<mapsto>
                   \<lparr> plan_include = True, forced = False, usedCompressed = True,
                     usedRendered = compressedRendered cand,
                     usedCost = the (compressedCost cand),
                     reason = ''compressed to fit budget'' \<rparr>),
              plannedTotal + the (compressedCost cand))
        else (pl(index cand \<mapsto>
                   \<lparr> plan_include = False, forced = False, usedCompressed = False,
                     usedRendered = baselineRendered cand,
                     usedCost = min (baselineCost cand)
                                    (case compressedCost cand of
                                       Some c \<Rightarrow> c
                                     | None \<Rightarrow> baselineCost cand),
                     reason = ''excluded due to budget/priority'' \<rparr>),
              plannedTotal))"

text \<open>The whole second pass: the plan and \<open>plannedTotal\<close>.\<close>

definition selectPlan :: "int option \<Rightarrow> PreparedItem list \<Rightarrow> plan \<times> int" where
  "selectPlan bud preparedItems =
     (case bud of
        None \<Rightarrow> foldl planUnbudgeted (Map.empty, 0) preparedItems
      | Some b \<Rightarrow>
          (let start = (case preparedItems of
                          [] \<Rightarrow> (Map.empty, 0)
                        | first # rest \<Rightarrow>
                            (Map.empty(index first \<mapsto> planFirst first),
                             0 + usedCost (planFirst first)))
           in foldl (planCandidate b) start (candidates preparedItems)))"

section \<open>Chef.ts: cook, third pass (plating in the original order)\<close>

datatype decision_kind = ForcedInclude | Included | Dropped

record PlateInfo =
  plate_token :: string
  decision :: decision_kind
  plate_reason :: string
  servedDetail :: string
  plate_priorityTag :: "priority_tag option"
  plate_priorityScore :: score
  wasCompressed :: bool
  plate_compressionNote :: "string option"
  originalCost :: int
  plate_compressedCost :: "int option"
  cost :: int
  runningTotalBefore :: int
  runningTotalAfter :: int
  lineage :: "TraceEntry list"

record CookExplainResult =
  context_text :: string
  totalTokens :: int
  result_budget :: "int option"
  plates :: "PlateInfo list"

datatype cook_result = ContextOnly string | Explained CookExplainResult

text \<open>String concatenation with a \<open>string | undefined\<close> on the left.\<close>

definition text_of :: "string option \<Rightarrow> string" where
  "text_of r = (case r of None \<Rightarrow> ''undefined'' | Some t \<Rightarrow> t)"

definition decide :: "int option \<Rightarrow> PlanDecision \<Rightarrow> PreparedItem \<Rightarrow> decision_kind" where
  "decide bud d item =
     (if \<not> plan_include d then Dropped
      else if bud = None then Included
      else if index item = 0 then ForcedInclude
      else Included)"

text \<open>The plate pushed for an item with decision \<open>d\<close>, given the running totals.\<close>

definition plateOf :: "int option \<Rightarrow> PlanDecision \<Rightarrow> PreparedItem \<Rightarrow> int \<Rightarrow> int \<Rightarrow> PlateInfo" where
  "plateOf bud d item totalBefore totalAfter =
     \<lparr> plate_token = token item,
       decision = decide bud d item,
       plate_reason = reason d,
       servedDetail = detailRequested item,
       plate_priorityTag = priorityTag item,
       plate_priorityScore = priorityScore item,
       wasCompressed = usedCompressed d,
       plate_compressionNote = (if usedCompressed d then compressionNote item else None),
       originalCost = baselineCost item,
       plate_compressedCost = compressedCost item,
       cost = usedCost d,
       runningTotalBefore = totalBefore,
       runningTotalAfter = totalAfter,
       lineage = (case item_trace item of Some t \<Rightarrow> t | None \<Rightarrow> []) \<rparr>"

text \<open>
  The body of the last loop: the state is \<open>includedLines\<close>, \<open>runningTotal\<close> and
  \<open>plates\<close>. An index without a decision is skipped.
\<close>

definition plateItem :: "int option \<Rightarrow> bool \<Rightarrow> plan
     \<Rightarrow> string list \<times> int \<times> PlateInfo list \<Rightarrow> PreparedItem
     \<Rightarrow> string list \<times> int \<times> PlateInfo list" where
  "plateItem bud expl pl acc item =
     (case acc of (includedLines, runningTotal, ps) \<Rightarrow>
      (case pl (index item) of
        None \<Rightarrow> (includedLines, runningTotal, ps)
      | Some d \<Rightarrow>
          (let beforeTotal = runningTotal;
               includedLines' = (if plan_include d
                                 then includedLines @ [text_of (usedRendered d) @ [CHR 0x0A]]
                                 else includedLines);
               runningTotal' = (if plan_include d then runningTotal + usedCost d else runningTotal)
           in if expl
              then (includedLines', runningTotal', ps @ [plateOf bud d item beforeTotal runningTotal'])
              else (includedLines', runningTotal', ps))))"

text \<open>\<open>Array.prototype.join\<close>.\<close>

fun join :: "string \<Rightarrow> string list \<Rightarrow> string" where
  "join sep [] = []"
| "join sep [x] = x"
| "join sep (x # y # ys) = x @ sep @ join sep (y # ys)"

definition plateAll :: "int option \<Rightarrow> bool \<Rightarrow> plan \<Rightarrow> PreparedItem list \<Rightarrow> cook_result" where
  "plateAll bud expl pl preparedItems =
     (case foldl (plateItem bud expl pl) ([], 0, []) preparedItems of
        (includedLines, runningTotal, ps) \<Rightarrow>
          if \<not> expl then ContextOnly (join [CHR 0x0A] includedLines)
          else Explained \<lparr> context_text = join [CHR 0x0A] includedLines,
                           totalTokens = runningTotal,
                           result_budget = bud,
                           plates = ps \<rparr>)"

section \<open>Chef.ts: cook\<close>

text \<open>
  The constants at the head of \<open>cook\<close>. The argument of \<open>cook\<close> is optional and so
  is each of its members: an absent one is \<open>None\<close>.
\<close>

definition explainOf :: "cook_options option \<Rightarrow> bool" where
  "explainOf options = (case options of Some opts \<Rightarrow> explain opts = Some True | None \<Rightarrow> False)"

definition budgetOf :: "cook_options option \<Rightarrow> int option" where
  "budgetOf options = (case options of Some opts \<Rightarrow> budget opts | None \<Rightarrow> None)"

definition countTokensFn :: "cook_options option \<Rightarrow> count_fn" where
  "countTokensFn options =
     (case options of
        Some opts \<Rightarrow> (case countTokens opts of Some f \<Rightarrow> f | None \<Rightarrow> defaultCountTokens)
      | None \<Rightarrow> defaultCountTokens)"

definition rankPriorityFn :: "cook_options option \<Rightarrow> rank_fn" where
  "rankPriorityFn options =
     (case options of
        Some opts \<Rightarrow> (case rankPriority opts of Some f \<Rightarrow> f | None \<Rightarrow> defaultRankPriority)
      | None \<Rightarrow> defaultRankPriority)"

definition orderListNormalized :: "kitchen \<Rightarrow> cook_options option \<Rightarrow> (string \<times> string \<times> nat) list" where
  "orderListNormalized K options =
     normalizeOrder K (case options of Some opts \<Rightarrow> order opts | None \<Rightarrow> None)"

text \<open>The first pass as \<open>cook\<close> runs it.\<close>

definition preparedItemsOf :: "nat \<Rightarrow> kitchen \<Rightarrow> Chef \<Rightarrow> cook_options option
     \<Rightarrow> PreparedItem list outcome \<times> Chef" where
  "preparedItemsOf n K s options =
     prepareItems n K s (countTokensFn options) (rankPriorityFn options) (explainOf options)
       (orderListNormalized K options) []"

text \<open>
  \<open>cook\<close>. The room on the stack is the same for every \<open>prepare\<close> and \<open>trace\<close> call
  that \<open>cook\<close> makes; console output is not modelled.
\<close>

definition cook :: "nat \<Rightarrow> kitchen \<Rightarrow> Chef \<Rightarrow> cook_options option
     \<Rightarrow> cook_result outcome \<times> Chef" where
  "cook n K s options =
     (case preparedItemsOf n K s options of
        (Returned preparedItems, s') \<Rightarrow>
          (Returned (plateAll (budgetOf options) (explainOf options)
                       (fst (selectPlan (budgetOf options) preparedItems)) preparedItems), s')
      | (Threw e, s') \<Rightarrow> (Threw e, s')
      | (Overflow, s') \<Rightarrow> (Overflow, s'))"

section \<open>The life of an instance\<close>


section \<open>The dependency graph of the providers\<close>

text \<open>
  \<open>(child, parent) \<in> depends_on K s\<close>: the token \<open>parent\<close> is served by a recipe (no
  pantry entry shadows it) that names \<open>child\<close> as the root token of an ingredient.
\<close>

definition depends_on :: "kitchen \<Rightarrow> Chef \<Rightarrow> (string \<times> string) set" where
  "depends_on K s =
     {(child, parent).
        pantry s parent = None \<and>
        (\<exists>c desc. map_of (cookbook K) parent = Some c \<and>
                  Some desc \<in> set (paramDescs (classes K c)) \<and> rootToken desc = child)}"


text \<open>
  No recipe on a cycle of \<open>R\<close> through \<open>tok\<close> has a cached value in \<open>s\<close> (as in a fresh
  instance).
\<close>

definition cycle_uncached :: "(string \<times> string) set \<Rightarrow> kitchen \<Rightarrow> Chef \<Rightarrow> string \<Rightarrow> bool" where
  "cycle_uncached R K s tok \<longleftrightarrow>
     (\<forall>t c. (t, tok) \<in> R\<^sup>* \<and> (tok, t) \<in> R\<^sup>* \<and> map_of (cookbook K) t = Some c
            \<longrightarrow> valueCache s c = None)"

section \<open>Sub-paths\<close>

text \<open>
  Modelled from the spec: the evaluator \<open>JSONPath\<close> of the library jsonpath-plus, which
  is not among the sources. The spec's grammar of a sub-path: \<open>.field\<close> and
  \<open>[index]\<close> steps, chained, after the \<open>$\<close> that \<open>parseIngredientSpec\<close> puts in
  front; the path "resolves to a single scalar/substructure extracted from the root's
  value", and a step that finds nothing leaves \<open>undefined\<close>. A path outside the grammar
  finds nothing here.
\<close>

datatype path_step = FieldStep string | IndexStep nat

fun extractPath :: "jsval \<Rightarrow> path_step list \<Rightarrow> jsval" where
  "extractPath v [] = v"
| "extractPath (JObj members) (FieldStep f # steps) =
     (case map_of members f of None \<Rightarrow> JUndefined | Some v \<Rightarrow> extractPath v steps)"
| "extractPath (JArr elems) (IndexStep i # steps) =
     (if i < length elems then extractPath (elems ! i) steps else JUndefined)"
| "extractPath v (step # steps) = JUndefined"

definition digit_value :: "char \<Rightarrow> nat option" where
  "digit_value c =
     (let k = (of_char c :: nat) in if 48 \<le> k \<and> k \<le> 57 then Some (k - 48) else None)"

datatype scan_state = Idle | InField string | InIndex "nat option"

fun scan :: "scan_state \<Rightarrow> path_step list \<Rightarrow> string \<Rightarrow> path_step list option" where
  "scan Idle acc [] = Some acc"
| "scan (InField f) acc [] = (if f = [] then None else Some (acc @ [FieldStep f]))"
| "scan (InIndex k) acc [] = None"
| "scan Idle acc (c # cs) =
     (if c = CHR ''.'' then scan (InField []) acc cs
      else if c = CHR ''['' then scan (InIndex None) acc cs
      else None)"
| "scan (InField f) acc (c # cs) =
     (if c = CHR ''.'' then (if f = [] then None else scan (InField []) (acc @ [FieldStep f]) cs)
      else if c = CHR ''['' then (if f = [] then None else scan (InIndex None) (acc @ [FieldStep f]) cs)
      else scan (InField (f @ [c])) acc cs)"
| "scan (InIndex k) acc (c # cs) =
     (if c = CHR '']''
      then (case k of None \<Rightarrow> None | Some i \<Rightarrow> scan Idle (acc @ [IndexStep i]) cs)
      else (case digit_value c of
              None \<Rightarrow> None
            | Some d \<Rightarrow> scan (InIndex (Some ((case k of None \<Rightarrow> 0 | Some i \<Rightarrow> 10 * i) + d))) acc cs))"

definition spec_JSONPath :: "jsval \<Rightarrow> string \<Rightarrow> jsval" where
  "spec_JSONPath json path =
     (case path of
        [] \<Rightarrow> JUndefined
      | c # cs \<Rightarrow>
          if c = CHR ''$''
          then (case scan Idle [] cs of None \<Rightarrow> JUndefined | Some steps \<Rightarrow> extractPath json steps)
          else JUndefined)"


section \<open>A kitchen to run the code on\<close>

text \<open>
  The classes of a small cookbook, in the style of the repository's examples. \<open>Hist\<close>
  needs the pantry's \<open>sessionId\<close> and names \<open>Sum\<close> as its summary; the summary of
  \<open>Doc\<close> is the empty text; the summary of \<open>Note\<close> throws; \<open>Loop\<close> needs itself;
  \<open>Late\<close> needs a token nobody provides and then itself; \<open>Pick\<close> and \<open>PickBad\<close>
  need a sub-path of the pantry's \<open>Root\<close>; \<open>Again\<close> needs the pantry's
  \<open>sessionId\<close> and then itself; the summary of \<open>Memo\<close> is \<open>Loop\<close>.
\<close>

definition plain_class :: "string \<Rightarrow> IngredientDescriptor option list
     \<Rightarrow> (jsval list \<Rightarrow> error + jsval) \<Rightarrow> RecipeCtor" where
  "plain_class nm descs f =
     \<lparr> ctor_name = nm, ctor_token = None, priority = None, compressible = False,
       summaryRecipe = None, detailProfiles = None, paramDescs = descs, recipe_prepare = f \<rparr>"

definition demo_classes :: "RecipeCtor list" where
  "demo_classes =
     [ plain_class ''Sys'' [] (\<lambda>args. Inr (JStr ''be kind.'')),
       (plain_class ''Hist'' [Some (parseIngredientSpec ''sessionId'')]
          (\<lambda>args. Inr (JStr ''user: hello there; assistant: hi, how can I help?'')))
         \<lparr> priority := Some (PriorityNum 20), compressible := True,
           summaryRecipe := Some ''Sum'' \<rparr>,
       plain_class ''Sum'' [Some (parseIngredientSpec ''Hist'')] (\<lambda>args. Inr (JStr ''greetings'')),
       (plain_class ''Doc'' [] (\<lambda>args. Inr (JStr ''a document of forty characters in total.'')))
         \<lparr> priority := Some (PriorityStr ''High''), compressible := True,
           summaryRecipe := Some ''Blank'' \<rparr>,
       plain_class ''Blank'' [] (\<lambda>args. Inr (JStr [])),
       (plain_class ''Note'' [] (\<lambda>args. Inr (JStr ''a note..'')))
         \<lparr> compressible := True, summaryRecipe := Some ''Bad'' \<rparr>,
       plain_class ''Bad'' [] (\<lambda>args. Inl (Thrown ''boom'')),
       plain_class ''Loop'' [Some (parseIngredientSpec ''Loop'')] (\<lambda>args. Inr JNull),
       plain_class ''Late'' [Some (parseIngredientSpec ''Nobody''), Some (parseIngredientSpec ''Late'')]
         (\<lambda>args. Inr JNull),
       plain_class ''Pick'' [Some (parseIngredientSpec ''Root.a.b[1]'')] (\<lambda>args. Inr (JArr args)),
       plain_class ''PickBad'' [Some (parseIngredientSpec ''Root.a.c'')] (\<lambda>args. Inr (JArr args)),
       plain_class ''Again'' [Some (parseIngredientSpec ''sessionId''), Some (parseIngredientSpec ''Again'')]
         (\<lambda>args. Inr JNull),
       (plain_class ''Memo'' [] (\<lambda>args. Inr (JStr ''a memo..'')))
         \<lparr> compressible := True, summaryRecipe := Some ''Loop'' \<rparr> ]"

text \<open>
  The cookbook after registering the classes in this order. \<open>JSON.stringify\<close> is never
  reached on the orders cooked below, whose values are all texts.
\<close>

definition demo_kitchen :: kitchen where
  "demo_kitchen =
     fold register [0 ..< length demo_classes]
       \<lparr> cookbook = [], classes = (\<lambda>c. demo_classes ! c),
         JSONPath = spec_JSONPath, JSON_stringify = (\<lambda>v. None) \<rparr>"

definition demo_chef :: Chef where
  "demo_chef =
     new_Chef [(''sessionId'', Raw (JStr ''1234'')),
               (''Root'', Raw (JObj [(''a'', JObj [(''b'', JArr [JNum 10, JNum 20])])]))]"

definition demo_options :: "string list \<Rightarrow> int option \<Rightarrow> cook_options" where
  "demo_options tokens bud =
     \<lparr> order = Some (map Bare tokens), budget = bud, countTokens = None,
       rankPriority = None, explain = Some True \<rparr>"

section \<open>What a call may do to an instance\<close>

text \<open>
  \<open>grows s s'\<close>: the pantry is the same, every cached value is still cached, and the
  classes that were called meanwhile had no cached value in \<open>s\<close>. It is used in the
  proofs only.
\<close>

definition grows :: "Chef \<Rightarrow> Chef \<Rightarrow> bool" where
  "grows s s' \<longleftrightarrow>
     pantry s' = pantry s \<and> valueCache s \<subseteq>\<^sub>m valueCache s' \<and>
     (\<exists>new. prepare_calls s' = prepare_calls s @ new \<and> (\<forall>c \<in> set new. valueCache s c = None))"

section \<open>The invariant of the last loop\<close>

text \<open>
  What the last loop of \<open>cook\<close> keeps true of \<open>runningTotal\<close> and \<open>plates\<close> in explain
  mode; it is used in the proofs only.
\<close>

definition chain_ok :: "int \<Rightarrow> PlateInfo list \<Rightarrow> bool" where
  "chain_ok rt ps \<longleftrightarrow>
     (\<forall>i<length ps.
        runningTotalBefore (ps ! i) = (if i = 0 then 0 else runningTotalAfter (ps ! (i - 1))) \<and>
        runningTotalAfter (ps ! i) =
          runningTotalBefore (ps ! i) + (if decision (ps ! i) = Dropped then 0 else cost (ps ! i))) \<and>
     rt = (if ps = [] then 0 else runningTotalAfter (last ps)) \<and>
     rt = sum_list (map cost (filter (\<lambda>p. decision p \<noteq> Dropped) ps))"

section \<open>The order of the candidates, in the spec's words\<close>
section \<open>What the planner has spent\<close>

text \<open>
  \<open>spent pl t cs\<close>: \<open>t\<close> and the costs of the items of \<open>cs\<close> that the plan \<open>pl\<close>
  includes, at the cost the plan serves them at.
\<close>

definition spent :: "plan \<Rightarrow> int \<Rightarrow> PreparedItem list \<Rightarrow> int" where
  "spent pl t cs =
     t + sum_list (map (\<lambda>p. usedCost (the (pl (index p))))
                       (filter (\<lambda>p. plan_include (the (pl (index p)))) cs))"

section \<open>The order of the candidates, in the spec's words\<close>

text \<open>
  The spec's order of the remaining items, to be compared with \<open>compareCandidates\<close>:
  "priority score descending; then the minimum of (baseline cost, compressed cost if
  any) ascending; then original index ascending". It is an order of items whose scores
  are numbers.
\<close>

fun number :: "score \<Rightarrow> int option" where
  "number (Num x) = Some x"
| "number (Inherited k) = None"

definition spec_cost :: "PreparedItem \<Rightarrow> int" where
  "spec_cost p =
     (case compressedCost p of
        None \<Rightarrow> baselineCost p
      | Some c \<Rightarrow> if c < baselineCost p then c else baselineCost p)"

definition spec_planned_before :: "PreparedItem \<Rightarrow> PreparedItem \<Rightarrow> bool" where
  "spec_planned_before a b =
     (case (number (priorityScore a), number (priorityScore b)) of
        (Some x, Some y) \<Rightarrow>
          y < x \<or> (x = y \<and> (spec_cost a < spec_cost b \<or>
                            (spec_cost a = spec_cost b \<and> index a \<le> index b)))
      | _ \<Rightarrow> False)"

section \<open>Outcomes that are handed on\<close>

text \<open>
  \<open>passes a b\<close>: the outcome \<open>a\<close> is no value and \<open>b\<close> is the same outcome, at
  another type. It is used in the proofs only.
\<close>

definition passes :: "'a outcome \<Rightarrow> 'b outcome \<Rightarrow> bool" where
  "passes a b \<longleftrightarrow> (\<exists>e. a = Threw e \<and> b = Threw e) \<or> (a = Overflow \<and> b = Overflow)"

section \<open>Where an error on a cycle comes from\<close>



section \<open>Facts about the resolver\<close>

lemma passes_simps [simp]:
  "passes (Threw e) b \<longleftrightarrow> b = Threw e"
  "passes Overflow b \<longleftrightarrow> b = Overflow"
  "\<not> passes (Returned v) b"
  "\<not> passes a (Returned w)"
  unfolding passes_def by auto


lemma passes_cases:
  obtains (returned) v where "a = Returned v" | (passed) "passes a (map_outcome f a)"
  by (cases a) auto

lemma prepare_Suc_cases:
  assumes "prepare (Suc n) K s tok = (r, s')"
  obtains
    (pantry) pv where "pantry s tok = Some pv" "s' = s"
      "r = (case pv of PantryValue v \<Rightarrow> Returned v | PantryProvider g \<Rightarrow> completed (g ()))"
  | (unresolved) "pantry s tok = None" "map_of (cookbook K) tok = None"
      "r = Threw (UnresolvedToken tok)" "s' = s"
  | (cached) c v where "pantry s tok = None" "map_of (cookbook K) tok = Some c"
      "valueCache s c = Some v" "r = Returned v" "s' = s"
  | (failed) c where "pantry s tok = None" "map_of (cookbook K) tok = Some c"
      "valueCache s c = None" "invokeRecipe n K s c = (r, s')" "passes r r"
  | (cooked) c v s0 where "pantry s tok = None" "map_of (cookbook K) tok = Some c"
      "valueCache s c = None" "invokeRecipe n K s c = (Returned v, s0)" "r = Returned v"
      "s' = s0\<lparr> valueCache := (valueCache s0)(c \<mapsto> v) \<rparr>"
proof (cases "pantry s tok")
  case (Some pv)
  with assms have "s' = s"
    "r = (case pv of PantryValue v \<Rightarrow> Returned v | PantryProvider g \<Rightarrow> completed (g ()))"
    by (cases pv; simp)+
  with Some show ?thesis by (rule pantry)
next
  case None
  note pn = None
  show ?thesis
  proof (cases "map_of (cookbook K) tok")
    case None
    with assms pn show ?thesis by (intro unresolved) simp_all
  next
    case (Some c)
    note ct = Some
    show ?thesis
    proof (cases "valueCache s c")
      case (Some v)
      with assms pn ct show ?thesis by (intro cached [of c v]) simp_all
    next
      case None
      note vn = None
      obtain r0 s0 where inv: "invokeRecipe n K s c = (r0, s0)"
        by (cases "invokeRecipe n K s c") auto
      show ?thesis
      proof (cases r0)
        case (Returned v)
        with assms pn ct vn inv show ?thesis by (intro cooked [of c v s0]) simp_all
      next
        case (Threw e)
        with assms pn ct vn inv have e: "r = r0" "s' = s0" by simp_all
        from inv have i: "invokeRecipe n K s c = (r, s')" unfolding e .
        from Threw have "passes r r" unfolding e by simp
        with pn ct vn i show ?thesis by (rule failed)
      next
        case Overflow
        with assms pn ct vn inv have e: "r = r0" "s' = s0" by simp_all
        from inv have i: "invokeRecipe n K s c = (r, s')" unfolding e .
        from Overflow have "passes r r" unfolding e by simp
        with pn ct vn i show ?thesis by (rule failed)
      qed
    qed
  qed
qed

lemma invokeRecipe_cases:
  assumes "invokeRecipe n K s c = (r, s')"
  obtains
    (args_failed) ra where
      "resolveArgs n K (getInstance s c) (paramDescs (classes K c)) [] = (ra, s')" "passes ra r"
  | (called) args s1 where
      "resolveArgs n K (getInstance s c) (paramDescs (classes K c)) [] = (Returned args, s1)"
      "r = completed (recipe_prepare (classes K c) args)"
      "s' = s1\<lparr> prepare_calls := prepare_calls s1 @ [c] \<rparr>"
proof -
  obtain ra s1 where
    ra: "resolveArgs n K (getInstance s c) (paramDescs (classes K c)) [] = (ra, s1)"
    by (cases "resolveArgs n K (getInstance s c) (paramDescs (classes K c)) []") auto
  show ?thesis
  proof (cases ra)
    case (Returned args)
    with assms ra show ?thesis by (intro called [of args s1]) simp_all
  next
    case (Threw e)
    with assms ra show ?thesis by (intro args_failed [of ra]) simp_all
  next
    case Overflow
    with assms ra show ?thesis by (intro args_failed [of ra]) simp_all
  qed
qed

lemma resolveArgs_Some_cases:
  assumes "resolveArgs n K s (Some desc # descs) args = (r, s')"
  obtains
    (root_failed) rp where "prepare n K s (rootToken desc) = (rp, s')" "passes rp r"
  | (undefined) rootVal where "prepare n K s (rootToken desc) = (Returned rootVal, s')"
      "finalVal K desc rootVal = JUndefined" "r = Threw (ContractViolation (ingredient_text desc))"
  | (resolved) rootVal s1 where "prepare n K s (rootToken desc) = (Returned rootVal, s1)"
      "finalVal K desc rootVal \<noteq> JUndefined"
      "resolveArgs n K s1 descs (args @ [finalVal K desc rootVal]) = (r, s')"
proof -
  obtain rp s1 where p: "prepare n K s (rootToken desc) = (rp, s1)"
    by (cases "prepare n K s (rootToken desc)") auto
  show ?thesis
  proof (cases rp)
    case (Threw e)
    with assms p show ?thesis by (intro root_failed [of rp]) simp_all
  next
    case Overflow
    with assms p show ?thesis by (intro root_failed [of rp]) simp_all
  next
    case (Returned rootVal)
    show ?thesis
    proof (cases "finalVal K desc rootVal = JUndefined")
      case True
      with assms p Returned show ?thesis
        by (intro undefined [of rootVal]) simp_all
    next
      case False
      with assms p Returned show ?thesis
        by (intro resolved [of rootVal s1]) simp_all
    qed
  qed
qed

lemma resolveArgs_prefix:
  assumes "resolveArgs n K s descs args = (Returned vs, s')"
  shows "\<exists>more. vs = args @ more \<and> length more = length descs"
  using assms
proof (induction descs arbitrary: s args)
  case Nil
  then show ?case by simp
next
  case (Cons d descs)
  show ?case
  proof (cases d)
    case None
    with Cons.prems have "resolveArgs n K s descs (args @ [JUndefined]) = (Returned vs, s')" by simp
    from Cons.IH [OF this] show ?thesis by auto
  next
    case (Some desc)
    from Cons.prems [unfolded Some] show ?thesis
    proof (cases rule: resolveArgs_Some_cases)
      case (root_failed rp)
      then show ?thesis by simp
    next
      case (undefined rootVal)
      then show ?thesis by simp
    next
      case (resolved rootVal s1)
      from Cons.IH [OF resolved(3)] show ?thesis by auto
    qed
  qed
qed


lemma prepare_pantry_value:
  "pantry s tok = Some (PantryValue v) \<Longrightarrow> prepare (Suc n) K s tok = (Returned v, s)"
  by simp

section \<open>Facts about the first pass\<close>

lemma prepareItem_fields:
  assumes "prepareItem n K s cf rf expl (tok, detail, idx) = (Returned p, s')"
  shows "token p = tok \<and> detailRequested p = detail \<and> index p = idx"
  using assms unfolding prepareItem_def
  by (auto simp: Let_def split: outcome.splits sum.splits prod.splits if_splits)

lemma prepareItems_Cons_cases:
  assumes "prepareItems n K s cf rf expl (item # ord) acc = (r, s')"
  obtains
    (item_failed) ri where "prepareItem n K s cf rf expl item = (ri, s')" "passes ri r"
  | (item_done) p s1 where "prepareItem n K s cf rf expl item = (Returned p, s1)"
      "prepareItems n K s1 cf rf expl ord (acc @ [p]) = (r, s')"
proof -
  obtain ri s1 where i: "prepareItem n K s cf rf expl item = (ri, s1)"
    by (cases "prepareItem n K s cf rf expl item") auto
  show ?thesis
  proof (cases ri)
    case (Returned p)
    with assms i show ?thesis by (intro item_done [of p s1]) simp_all
  next
    case (Threw e)
    with assms i show ?thesis by (intro item_failed [of ri]) simp_all
  next
    case Overflow
    with assms i show ?thesis by (intro item_failed [of ri]) simp_all
  qed
qed

lemma prepareItems_fields:
  assumes "prepareItems n K s cf rf expl ord acc = (Returned items, s')"
  shows "map index items = map index acc @ map (\<lambda>(t, d, i). i) ord
       \<and> map token items = map token acc @ map (\<lambda>(t, d, i). t) ord
       \<and> map detailRequested items = map detailRequested acc @ map (\<lambda>(t, d, i). d) ord"
  using assms
proof (induction ord arbitrary: s acc)
  case Nil
  then show ?case by simp
next
  case (Cons item ord)
  obtain tok detail idx where item: "item = (tok, detail, idx)" by (cases item) auto
  from Cons.prems show ?case
  proof (cases rule: prepareItems_Cons_cases)
    case (item_failed ri)
    then show ?thesis by simp
  next
    case (item_done p s1)
    from item_done(1) item have "token p = tok \<and> detailRequested p = detail \<and> index p = idx"
      using prepareItem_fields by blast
    with Cons.IH [OF item_done(2)] item show ?thesis by simp
  qed
qed



lemma map_third_enumerate:
  "map (\<lambda>(t, d, i). i) (map (\<lambda>(i, x). (f x i, g x i, i)) ys) = map fst ys"
  by (induction ys) auto

lemma normalizeOrder_index:
  "map (\<lambda>(t, d, i). i) (normalizeOrder K ord) = [0..<length (normalizeOrder K ord)]"
proof (cases "ord \<noteq> None \<and> length (the ord) > 0")
  case True
  have "normalizeOrder K ord =
     map (\<lambda>(i, item). ((case item of Bare t \<Rightarrow> t | Detailed t d \<Rightarrow> t),
                        (case item of Bare t \<Rightarrow> ''full'' | Detailed t d \<Rightarrow> (case d of Some d' \<Rightarrow> d' | None \<Rightarrow> ''full'')), i))
       (enumerate 0 (the ord))"
    using True unfolding normalizeOrder_def
    by (auto split: OrderItem.splits)
  then show ?thesis
    using map_third_enumerate [of "\<lambda>item i. (case item of Bare t \<Rightarrow> t | Detailed t d \<Rightarrow> t)" _ "enumerate 0 (the ord)"]
    by (simp add: map_fst_enumerate)
next
  case False
  then have "normalizeOrder K ord = map (\<lambda>(i, tok). (tok, ''full'', i)) (enumerate 0 (map fst (cookbook K)))"
    unfolding normalizeOrder_def by auto
  then show ?thesis
    using map_third_enumerate [of "\<lambda>tok i. tok" "\<lambda>tok i. ''full''" "enumerate 0 (map fst (cookbook K))"]
    by (simp add: map_fst_enumerate)
qed

section \<open>Facts about the second pass\<close>

lemma set_insertBy: "set (insertBy cmp x xs) = insert x (set xs)"
  by (induction xs) auto

lemma set_sortBy: "set (sortBy cmp xs) = set xs"
  unfolding sortBy_def by (induction xs) (auto simp: set_insertBy)

lemma planUnbudgeted_step:
  "planUnbudgeted (pl, t) x = (pl(index x \<mapsto> unbudgeted x), t + baselineCost x)"
  unfolding planUnbudgeted_def by simp

lemma planUnbudgeted_fold:
  assumes "distinct (map index items)" "p \<in> set items"
  shows "fst (foldl planUnbudgeted (pl, t) items) (index p) = Some (unbudgeted p)"
  using assms
proof (induction items arbitrary: p rule: rev_induct)
  case Nil
  then show ?case by simp
next
  case (snoc x xs)
  obtain pl' t' where f: "foldl planUnbudgeted (pl, t) xs = (pl', t')" by force
  then have g: "foldl planUnbudgeted (pl, t) (xs @ [x]) = (pl'(index x \<mapsto> unbudgeted x), t' + baselineCost x)"
    by (simp add: planUnbudgeted_step)
  show ?case
  proof (cases "p = x")
    case True
    then show ?thesis unfolding g by simp
  next
    case False
    with snoc.prems have px1: "p \<in> set xs" by simp
    from snoc.prems have dx: "distinct (map index xs)" "index x \<notin> index ` set xs" by simp_all
    have "index p \<noteq> index x"
    proof
      assume "index p = index x"
      with px1 have "index x \<in> index ` set xs" by (metis imageI)
      with dx(2) show False by simp
    qed
    with px1 dx have px: "p \<in> set xs" "index p \<noteq> index x" "distinct (map index xs)" by simp_all
    from snoc.IH [OF px(3) px(1)] f have "pl' (index p) = Some (unbudgeted p)" by simp
    with px(2) show ?thesis unfolding g by simp
  qed
qed

lemma planCandidate_other:
  "k \<noteq> index cand \<Longrightarrow> fst (planCandidate b (pl, t) cand) k = pl k"
  unfolding planCandidate_def by simp

lemma planCandidate_dom:
  "fst (planCandidate b (pl, t) cand) (index cand) \<noteq> None"
  unfolding planCandidate_def by simp

lemma planCandidate_fold_other:
  "k \<notin> index ` set cs \<Longrightarrow> fst (foldl (planCandidate b) (pl, t) cs) k = pl k"
proof (induction cs arbitrary: pl t)
  case Nil
  then show ?case by simp
next
  case (Cons c cs)
  obtain pl' t' where f: "planCandidate b (pl, t) c = (pl', t')" by force
  from Cons.prems have "k \<noteq> index c" "k \<notin> index ` set cs" by auto
  with Cons.IH [of pl' t'] f planCandidate_other [of k c b pl t] show ?case by simp
qed

lemma planCandidate_fold_dom:
  "k \<in> dom pl \<union> index ` set cs \<Longrightarrow> fst (foldl (planCandidate b) (pl, t) cs) k \<noteq> None"
proof (induction cs arbitrary: pl t)
  case Nil
  then show ?case by auto
next
  case (Cons c cs)
  obtain pl' t' where f: "planCandidate b (pl, t) c = (pl', t')" by force
  have "k \<in> dom pl' \<union> index ` set cs"
  proof (cases "k = index c")
    case True
    then show ?thesis using planCandidate_dom [of b pl t c] f by auto
  next
    case False
    then show ?thesis using planCandidate_other [of k c b pl t] f Cons.prems by auto
  qed
  with Cons.IH [of pl' t'] f show ?case by simp
qed

lemma selectPlan_first:
  assumes "index first \<notin> index ` set rest"
  shows "fst (selectPlan (Some b) (first # rest)) (index first) = Some (planFirst first)"
  using assms unfolding selectPlan_def candidates_def
  by (simp add: planCandidate_fold_other set_sortBy)

lemma selectPlan_budget_dom:
  assumes "p \<in> set items"
  shows "fst (selectPlan (Some b) items) (index p) \<noteq> None"
proof (cases items)
  case Nil
  with assms show ?thesis by simp
next
  case (Cons first rest)
  have "index p \<in> dom (Map.empty(index first \<mapsto> planFirst first)) \<union> index ` set (candidates items)"
    using assms Cons unfolding candidates_def by (auto simp: set_sortBy)
  then show ?thesis unfolding selectPlan_def using Cons
    by (simp add: planCandidate_fold_dom)
qed

lemma planCandidate_step:
  fixes b pl t c
  defines "d \<equiv> the (fst (planCandidate b (pl, t) c) (index c))"
  shows "planCandidate b (pl, t) c =
           (pl(index c \<mapsto> d), if plan_include d then t + usedCost d else t)"
    and "plan_include d \<Longrightarrow> t + usedCost d \<le> b"
    and "\<not> plan_include d \<Longrightarrow> b < t + baselineCost c"
    and "usedCompressed d \<Longrightarrow> truthy (compressedRendered c) \<and> compressedCost c = Some (usedCost d)"
    and "plan_include d \<Longrightarrow> \<not> usedCompressed d \<Longrightarrow> usedCost d = baselineCost c"
    and "t + baselineCost c \<le> b \<Longrightarrow>
           plan_include d \<and> \<not> usedCompressed d \<and> usedCost d = baselineCost c"
  unfolding d_def planCandidate_def by (auto split: if_splits)


lemma spent_cong:
  assumes "\<And>p. p \<in> set cs \<Longrightarrow> pl (index p) = pl' (index p)"
  shows "spent pl t cs = spent pl' t cs"
proof -
  have a: "filter (\<lambda>p. plan_include (the (pl (index p)))) cs =
           filter (\<lambda>p. plan_include (the (pl' (index p)))) cs"
    by (rule filter_cong) (simp_all add: assms)
  have m: "map (\<lambda>p. usedCost (the (pl (index p)))) (filter (\<lambda>p. plan_include (the (pl' (index p)))) cs) =
        map (\<lambda>p. usedCost (the (pl' (index p)))) (filter (\<lambda>p. plan_include (the (pl' (index p)))) cs)"
    by (rule map_cong) (simp_all add: assms)
  show ?thesis unfolding spent_def a m by (rule refl)
qed

lemma spent_snoc:
  "spent pl t (xs @ [x]) =
     spent pl t xs + (if plan_include (the (pl (index x))) then usedCost (the (pl (index x))) else 0)"
  unfolding spent_def by simp

lemma spent_Nil: "spent pl t [] = t"
  unfolding spent_def by simp

lemma spent_Cons:
  "spent pl t (x # xs) =
     spent pl (t + (if plan_include (the (pl (index x))) then usedCost (the (pl (index x))) else 0)) xs"
  unfolding spent_def by simp

lemma spent_mset:
  assumes "mset xs = mset ys"
  shows "spent pl t xs = spent pl t ys"
proof -
  let ?f = "\<lambda>p. usedCost (the (pl (index p)))"
  let ?Q = "\<lambda>p. plan_include (the (pl (index p)))"
  have "mset (map ?f (filter ?Q xs)) = mset (map ?f (filter ?Q ys))"
    using assms by (simp only: mset_map mset_filter)
  then have "sum_mset (mset (map ?f (filter ?Q xs))) = sum_mset (mset (map ?f (filter ?Q ys)))"
    by simp
  then have "sum_list (map ?f (filter ?Q xs)) = sum_list (map ?f (filter ?Q ys))"
    by (simp only: sum_mset_sum_list)
  then show ?thesis unfolding spent_def by simp
qed

lemma planCandidate_fold_spent:
  assumes "distinct (map index cs)" "foldl (planCandidate b) (pl, t) cs = (pl', t')"
  shows "t' = spent pl' t cs \<and>
         (\<forall>k<length cs.
            (plan_include (the (pl' (index (cs ! k)))) \<longrightarrow>
               spent pl' t (take k cs) + usedCost (the (pl' (index (cs ! k)))) \<le> b) \<and>
            (\<not> plan_include (the (pl' (index (cs ! k)))) \<longrightarrow>
               b < spent pl' t (take k cs) + baselineCost (cs ! k)) \<and>
            (spent pl' t (take k cs) + baselineCost (cs ! k) \<le> b \<longrightarrow>
               plan_include (the (pl' (index (cs ! k)))) \<and>
               \<not> usedCompressed (the (pl' (index (cs ! k)))) \<and>
               usedCost (the (pl' (index (cs ! k)))) = baselineCost (cs ! k)))"
  using assms
proof (induction cs arbitrary: pl' t' rule: rev_induct)
  case Nil
  then show ?case by (simp add: spent_Nil)
next
  case (snoc x xs)
  obtain pl1 t1 where f: "foldl (planCandidate b) (pl, t) xs = (pl1, t1)" by force
  from snoc.prems(1) have dx: "distinct (map index xs)" and nx: "index x \<notin> index ` set xs"
    by simp_all
  note ih = snoc.IH [OF dx f]
  define d where "d = the (fst (planCandidate b (pl1, t1) x) (index x))"
  note st = planCandidate_step [where b = b and pl = pl1 and t = t1 and c = x, folded d_def]
  from snoc.prems(2) f st(1) have pl': "pl' = pl1(index x \<mapsto> d)"
    and t': "t' = (if plan_include d then t1 + usedCost d else t1)"
    by simp_all
  have same: "pl' (index p) = pl1 (index p)" if "p \<in> set xs" for p
  proof -
    from that have "index p \<in> index ` set xs" by (rule imageI)
    with nx have "index p \<noteq> index x" by metis
    then show ?thesis unfolding pl' by simp
  qed
  have sp: "spent pl' t ys = spent pl1 t ys" if "set ys \<subseteq> set xs" for ys
    by (rule spent_cong) (use that same in auto)
  have dd: "the (pl' (index x)) = d" unfolding pl' by simp
  have tot: "t' = spent pl' t (xs @ [x])"
    unfolding spent_snoc dd sp [OF subset_refl] using ih t' by simp
  have each: "(plan_include (the (pl' (index ((xs @ [x]) ! k)))) \<longrightarrow>
               spent pl' t (take k (xs @ [x])) + usedCost (the (pl' (index ((xs @ [x]) ! k)))) \<le> b) \<and>
            (\<not> plan_include (the (pl' (index ((xs @ [x]) ! k)))) \<longrightarrow>
               b < spent pl' t (take k (xs @ [x])) + baselineCost ((xs @ [x]) ! k)) \<and>
            (spent pl' t (take k (xs @ [x])) + baselineCost ((xs @ [x]) ! k) \<le> b \<longrightarrow>
               plan_include (the (pl' (index ((xs @ [x]) ! k)))) \<and>
               \<not> usedCompressed (the (pl' (index ((xs @ [x]) ! k)))) \<and>
               usedCost (the (pl' (index ((xs @ [x]) ! k)))) = baselineCost ((xs @ [x]) ! k))"
    if k: "k < length (xs @ [x])" for k
  proof (cases "k < length xs")
    case True
    then have a: "(xs @ [x]) ! k = xs ! k" "take k (xs @ [x]) = take k xs"
      by (simp_all add: nth_append)
    from True have m: "xs ! k \<in> set xs" by simp
    have s: "spent pl' t (take k xs) = spent pl1 t (take k xs)"
      by (rule sp) (rule set_take_subset)
    from ih True show ?thesis unfolding a s same [OF m] by blast
  next
    case False
    with k have kl: "k = length xs" by simp
    then have a: "(xs @ [x]) ! k = x" "take k (xs @ [x]) = xs" by simp_all
    have s: "spent pl' t xs = t1" using sp [OF subset_refl] ih by simp
    from st(2,3,6) show ?thesis unfolding a s dd by blast
  qed
  from tot each show ?case by blast
qed

lemma selectPlan_budget:
  obtains pl t where
    "selectPlan (Some b) (first # rest) = (pl, t)"
    "foldl (planCandidate b)
       (Map.empty(index first \<mapsto> planFirst first), usedCost (planFirst first))
       (candidates (first # rest)) = (pl, t)"
  unfolding selectPlan_def by (cases "selectPlan (Some b) (first # rest)") (simp add: selectPlan_def)

section \<open>The order of the candidates\<close>

lemma mset_insertBy: "mset (insertBy cmp x xs) = add_mset x (mset xs)"
  by (induction xs) auto

lemma mset_sortBy: "mset (sortBy cmp xs) = mset xs"
  unfolding sortBy_def by (induction xs) (auto simp: mset_insertBy)

lemma mset_candidates: "mset (candidates items) = mset (drop 1 items)"
  unfolding candidates_def by (rule mset_sortBy)

lemma distinct_candidates:
  assumes "distinct (map index items)"
  shows "distinct (map index (candidates items))"
proof -
  from assms have "distinct (drop 1 (map index items))" by (rule distinct_drop)
  then have "distinct (map index (drop 1 items))" by (simp only: drop_map)
  moreover have "mset (map index (candidates items)) = mset (map index (drop 1 items))"
    using mset_candidates [of items] by (simp only: mset_map)
  ultimately show ?thesis by (metis mset_eq_imp_distinct_iff)
qed



lemma spec_planned_before_number:
  "spec_planned_before a b \<Longrightarrow> number (priorityScore a) \<noteq> None \<and> number (priorityScore b) \<noteq> None"
  unfolding spec_planned_before_def by (auto split: option.splits)








section \<open>Facts about the third pass\<close>

lemma plateItem_Some:
  assumes "pl (index x) = Some d"
  shows "plateItem bud expl pl (ls, rt, ps) x =
     ((if plan_include d then ls @ [text_of (usedRendered d) @ [CHR 0x0A]] else ls),
      (if plan_include d then rt + usedCost d else rt),
      (if expl then ps @ [plateOf bud d x rt (if plan_include d then rt + usedCost d else rt)]
       else ps))"
  using assms unfolding plateItem_def by (simp add: Let_def)

lemma plateOf_simps:
  "plate_token (plateOf bud d x b a) = token x"
  "decision (plateOf bud d x b a) = decide bud d x"
  "wasCompressed (plateOf bud d x b a) = usedCompressed d"
  "cost (plateOf bud d x b a) = usedCost d"
  "originalCost (plateOf bud d x b a) = baselineCost x"
  "plate_compressedCost (plateOf bud d x b a) = compressedCost x"
  "runningTotalBefore (plateOf bud d x b a) = b"
  "runningTotalAfter (plateOf bud d x b a) = a"
  unfolding plateOf_def by simp_all

lemma plateItem_None:
  assumes "pl (index x) = None"
  shows "plateItem bud expl pl (ls, rt, ps) x = (ls, rt, ps)"
  using assms unfolding plateItem_def by simp

lemma plateItem_fold_lines:
  assumes "\<forall>p \<in> set items. pl (index p) \<noteq> None"
  shows "fst (foldl (plateItem bud expl pl) (ls, rt, ps) items) =
           ls @ map (\<lambda>p. text_of (usedRendered (the (pl (index p)))) @ [CHR 0x0A])
                    (filter (\<lambda>p. plan_include (the (pl (index p)))) items)
       \<and> fst (snd (foldl (plateItem bud expl pl) (ls, rt, ps) items)) =
           rt + sum_list (map (\<lambda>p. usedCost (the (pl (index p))))
                              (filter (\<lambda>p. plan_include (the (pl (index p)))) items))"
  using assms
proof (induction items arbitrary: ls rt ps)
  case Nil
  then show ?case by simp
next
  case (Cons x xs)
  then obtain d where d: "pl (index x) = Some d" by auto
  obtain ls' rt' ps' where step: "plateItem bud expl pl (ls, rt, ps) x = (ls', rt', ps')"
    by (cases "plateItem bud expl pl (ls, rt, ps) x") auto
  from step have "ls' = (if plan_include d then ls @ [text_of (usedRendered d) @ [CHR 0x0A]] else ls)"
    and "rt' = (if plan_include d then rt + usedCost d else rt)"
    unfolding plateItem_Some [where pl=pl and x=x and d=d, OF d] by simp_all
  with Cons.IH [of ls' rt' ps'] Cons.prems step d show ?case by simp
qed

lemma plateItem_fold_plates:
  assumes "\<forall>p \<in> set items. pl (index p) \<noteq> None"
  shows "map (\<lambda>q. (plate_token q, decision q, wasCompressed q, cost q, originalCost q, plate_compressedCost q))
             (snd (snd (foldl (plateItem bud True pl) (ls, rt, ps) items))) =
         map (\<lambda>q. (plate_token q, decision q, wasCompressed q, cost q, originalCost q, plate_compressedCost q)) ps @
         map (\<lambda>p. (token p, decide bud (the (pl (index p))) p, usedCompressed (the (pl (index p))),
                    usedCost (the (pl (index p))), baselineCost p, compressedCost p)) items"
  using assms
proof (induction items arbitrary: ls rt ps)
  case Nil
  then show ?case by simp
next
  case (Cons x xs)
  then obtain d where d: "pl (index x) = Some d" by auto
  obtain ls' rt' ps' where step: "plateItem bud True pl (ls, rt, ps) x = (ls', rt', ps')"
    by (cases "plateItem bud True pl (ls, rt, ps) x") auto
  from step have q: "ps' = ps @ [plateOf bud d x rt (if plan_include d then rt + usedCost d else rt)]"
    unfolding plateItem_Some [where pl=pl and x=x and d=d, OF d] by auto
  have "?case" if "ps' = ps @ [q]" "plate_token q = token x" "decision q = decide bud d x"
     "wasCompressed q = usedCompressed d" "cost q = usedCost d" "originalCost q = baselineCost x"
     "plate_compressedCost q = compressedCost x" for q
    using that Cons.IH [of ls' rt' ps'] Cons.prems step d by simp
  from this [OF q] show ?case by (simp add: plateOf_simps)
qed

lemma plateItem_fold_noexplain:
  "snd (snd (foldl (plateItem bud False pl) (ls, rt, ps) items)) = ps"
proof (induction items arbitrary: ls rt)
  case Nil
  then show ?case by simp
next
  case (Cons x xs)
  obtain ls' rt' ps' where step: "plateItem bud False pl (ls, rt, ps) x = (ls', rt', ps')"
    by (cases "plateItem bud False pl (ls, rt, ps) x") auto
  then have "ps' = ps"
    by (cases "pl (index x)") (simp_all add: plateItem_None plateItem_Some)
  with Cons.IH step show ?case by simp
qed

lemma chain_ok_snoc:
  assumes "chain_ok rt ps" "runningTotalBefore q = rt"
    "runningTotalAfter q = rt + (if decision q = Dropped then 0 else cost q)"
  shows "chain_ok (runningTotalAfter q) (ps @ [q])"
  unfolding chain_ok_def
proof (intro conjI allI impI)
  fix i assume i: "i < length (ps @ [q])"
  show "runningTotalBefore ((ps @ [q]) ! i) =
        (if i = 0 then 0 else runningTotalAfter ((ps @ [q]) ! (i - 1)))"
  proof (cases "i < length ps")
    case True
    then show ?thesis using assms(1) unfolding chain_ok_def by (auto simp: nth_append)
  next
    case False
    with i have il: "i = length ps" by simp
    show ?thesis
    proof (cases "ps = []")
      case True
      with il assms show ?thesis unfolding chain_ok_def by simp
    next
      case False
      with il assms show ?thesis unfolding chain_ok_def
        by (simp add: nth_append last_conv_nth)
    qed
  qed
  show "runningTotalAfter ((ps @ [q]) ! i) =
        runningTotalBefore ((ps @ [q]) ! i) +
        (if decision ((ps @ [q]) ! i) = Dropped then 0 else cost ((ps @ [q]) ! i))"
  proof (cases "i < length ps")
    case True
    then show ?thesis using assms(1) unfolding chain_ok_def by (auto simp: nth_append)
  next
    case False
    with i have il: "i = length ps" by simp
    with assms show ?thesis by (simp add: nth_append)
  qed
next
  show "runningTotalAfter q = (if ps @ [q] = [] then 0 else runningTotalAfter (last (ps @ [q])))"
    by simp
  show "runningTotalAfter q = sum_list (map cost (filter (\<lambda>p. decision p \<noteq> Dropped) (ps @ [q])))"
    using assms unfolding chain_ok_def by simp
qed


lemma plateItem_chain:
  assumes "chain_ok rt ps" "plateItem bud True pl (ls, rt, ps) x = (ls', rt', ps')"
  shows "chain_ok rt' ps'"
proof (cases "pl (index x)")
  case None
  with assms show ?thesis by (simp add: plateItem_None)
next
  case (Some d)
  define q where "q = plateOf bud d x rt rt'"
  from assms(2) have rt': "rt' = (if plan_include d then rt + usedCost d else rt)"
    unfolding plateItem_Some [where pl=pl and x=x and d=d, OF Some] by simp
  from assms(2) rt' have "ps' = ps @ [q]"
    unfolding plateItem_Some [where pl=pl and x=x and d=d, OF Some] q_def by auto
  then have q: "ps' = ps @ [q]" "runningTotalBefore q = rt" "runningTotalAfter q = rt'"
      "rt' = (if plan_include d then rt + usedCost d else rt)" "cost q = usedCost d"
      "decision q = decide bud d x"
    using rt' unfolding q_def by (simp_all add: plateOf_simps)
  have dd: "decision q = Dropped \<longleftrightarrow> \<not> plan_include d"
    using q(6) unfolding decide_def by auto
  have "chain_ok (runningTotalAfter q) (ps @ [q])"
    using assms(1) q dd by (intro chain_ok_snoc) auto
  with q show ?thesis by simp
qed

lemma plateItem_fold_chain:
  assumes "chain_ok rt ps" "foldl (plateItem bud True pl) (ls, rt, ps) items = (ls', rt', ps')"
  shows "chain_ok rt' ps'"
  using assms
proof (induction items arbitrary: ls rt ps)
  case Nil
  then show ?case by simp
next
  case (Cons x xs)
  obtain ls1 rt1 ps1 where step: "plateItem bud True pl (ls, rt, ps) x = (ls1, rt1, ps1)"
    by (cases "plateItem bud True pl (ls, rt, ps) x") auto
  from plateItem_chain [OF Cons.prems(1) step] have "chain_ok rt1 ps1" .
  with Cons.IH [of rt1 ps1 ls1] Cons.prems(2) step show ?case by simp
qed


section \<open>Facts about cook\<close>

lemma cook_Returned:
  assumes "cook n K s options = (Returned r, s')"
  obtains items where "preparedItemsOf n K s options = (Returned items, s')"
    and "r = plateAll (budgetOf options) (explainOf options)
               (fst (selectPlan (budgetOf options) items)) items"
  using assms unfolding cook_def
  by (auto split: outcome.splits prod.splits)

lemma preparedItemsOf_fields:
  assumes "preparedItemsOf n K s options = (Returned items, s')"
  shows "map index items = [0..<length items]"
    and "map token items = map (\<lambda>(t, d, i). t) (orderListNormalized K options)"
    and "length items = length (orderListNormalized K options)"
proof -
  from prepareItems_fields [OF assms [unfolded preparedItemsOf_def]]
  have a: "map index items = map (\<lambda>(t, d, i). i) (orderListNormalized K options)"
    and b: "map token items = map (\<lambda>(t, d, i). t) (orderListNormalized K options)"
    by simp_all
  from b show "map token items = map (\<lambda>(t, d, i). t) (orderListNormalized K options)" .
  from b have l: "length items = length (orderListNormalized K options)"
    by (metis length_map)
  then show "length items = length (orderListNormalized K options)" .
  from a l show "map index items = [0..<length items]"
    unfolding orderListNormalized_def by (simp add: normalizeOrder_index)
qed

lemma plateAll_explained:
  assumes "plateAll bud expl pl items = Explained res"
  shows "expl" and "chain_ok (totalTokens res) (plates res)"
    and "foldl (plateItem bud True pl) ([], 0, []) items =
           (fst (foldl (plateItem bud True pl) ([], 0, []) items), totalTokens res, plates res)"
    and "context_text res = join [CHR 0x0A] (fst (foldl (plateItem bud True pl) ([], 0, []) items))"
    and "result_budget res = bud"
proof -
  obtain ls rt ps where f: "foldl (plateItem bud expl pl) ([], 0, []) items = (ls, rt, ps)"
    by (cases "foldl (plateItem bud expl pl) ([], 0, []) items") auto
  from assms f show e: "expl" unfolding plateAll_def by (auto split: if_splits)
  from assms f e have r: "res = \<lparr> context_text = join [CHR 0x0A] ls, totalTokens = rt,
                                 result_budget = bud, plates = ps \<rparr>"
    unfolding plateAll_def by simp
  have c0: "chain_ok 0 []" unfolding chain_ok_def by simp
  from plateItem_fold_chain [OF c0] f e have "chain_ok rt ps" by simp
  with r show "chain_ok (totalTokens res) (plates res)" by simp
  from f e r show "foldl (plateItem bud True pl) ([], 0, []) items =
           (fst (foldl (plateItem bud True pl) ([], 0, []) items), totalTokens res, plates res)"
    by simp
  from f e r show "context_text res = join [CHR 0x0A] (fst (foldl (plateItem bud True pl) ([], 0, []) items))"
    by simp
  from r show "result_budget res = bud" by simp
qed



lemma plateAll_context:
  "(case plateAll bud expl pl items of ContextOnly c \<Rightarrow> c | Explained res \<Rightarrow> context_text res) =
   join [CHR 0x0A] (fst (foldl (plateItem bud expl pl) ([], 0, []) items))"
  unfolding plateAll_def
  by (cases "foldl (plateItem bud expl pl) ([], 0, []) items") simp

lemma plateAll_explained_fields:
  assumes "plateAll bud expl pl items = Explained res"
  shows "totalTokens res = fst (snd (foldl (plateItem bud True pl) ([], 0, []) items))"
    and "plates res = snd (snd (foldl (plateItem bud True pl) ([], 0, []) items))"
  using plateAll_explained(3) [OF assms]
  by (metis fst_conv snd_conv)+

lemma planFirst_facts:
  "plan_include (planFirst first)"
  "usedCompressed (planFirst first) \<Longrightarrow>
     truthy (compressedRendered first) \<and>
     (\<exists>c. compressedCost first = Some c \<and> c < baselineCost first \<and> usedCost (planFirst first) = c) \<and>
     usedRendered (planFirst first) = compressedRendered first"
  "\<not> usedCompressed (planFirst first) \<Longrightarrow>
     usedCost (planFirst first) = baselineCost first \<and>
     usedRendered (planFirst first) = baselineRendered first"
  unfolding planFirst_def by (auto split: if_splits)

section \<open>Calls only add to the caches\<close>

lemma grows_refl: "grows s s"
  unfolding grows_def by simp

lemma grows_trans:
  assumes "grows s s1" "grows s1 s2"
  shows "grows s s2"
proof -
  from assms obtain n1 n2 where
    1: "pantry s1 = pantry s" "valueCache s \<subseteq>\<^sub>m valueCache s1"
       "prepare_calls s1 = prepare_calls s @ n1" "\<forall>c \<in> set n1. valueCache s c = None" and
    2: "pantry s2 = pantry s1" "valueCache s1 \<subseteq>\<^sub>m valueCache s2"
       "prepare_calls s2 = prepare_calls s1 @ n2" "\<forall>c \<in> set n2. valueCache s1 c = None"
    unfolding grows_def by blast
  have "valueCache s c = None" if "c \<in> set n2" for c
  proof (cases "valueCache s c")
    case None
    then show ?thesis .
  next
    case (Some v)
    with 1(2) have "valueCache s1 c = Some v" by (auto simp: map_le_def dom_def)
    with 2(4) that show ?thesis by simp
  qed
  with 1 2 show ?thesis unfolding grows_def
    by (intro conjI exI [where x = "n1 @ n2"]) (auto intro: map_le_trans)
qed

lemma grows_getInstance: "grows s (getInstance s c)"
  unfolding grows_def getInstance_def by simp

lemma grows_call:
  assumes "grows s s1" "valueCache s c = None"
  shows "grows s (s1\<lparr> prepare_calls := prepare_calls s1 @ [c] \<rparr>)"
proof -
  from assms(1) obtain new where
    1: "pantry s1 = pantry s" "valueCache s \<subseteq>\<^sub>m valueCache s1"
       "prepare_calls s1 = prepare_calls s @ new" "\<forall>c \<in> set new. valueCache s c = None"
    unfolding grows_def by blast
  with assms(2) show ?thesis unfolding grows_def
    by (intro conjI exI [where x = "new @ [c]"]) auto
qed

lemma grows_cache:
  assumes "grows s s1" "valueCache s c = None"
  shows "grows s (s1\<lparr> valueCache := (valueCache s1)(c \<mapsto> v) \<rparr>)"
proof -
  from assms(1) obtain new where
    1: "pantry s1 = pantry s" "valueCache s \<subseteq>\<^sub>m valueCache s1"
       "prepare_calls s1 = prepare_calls s @ new" "\<forall>c \<in> set new. valueCache s c = None"
    unfolding grows_def by blast
  from 1(2) assms(2) have "valueCache s \<subseteq>\<^sub>m (valueCache s1)(c \<mapsto> v)"
    by (auto simp: map_le_def dom_def)
  with 1 show ?thesis unfolding grows_def
    by (intro conjI exI [where x = new]) auto
qed

lemma resolveArgs_grows:
  assumes IH: "\<And>s tok r s'. prepare n K s tok = (r, s') \<Longrightarrow> grows s s'"
    and "resolveArgs n K s descs args = (r, s')"
  shows "grows s s'"
  using assms(2)
proof (induction descs arbitrary: s args)
  case Nil
  then show ?case by (simp add: grows_refl)
next
  case (Cons d descs)
  show ?case
  proof (cases d)
    case None
    with Cons show ?thesis by simp
  next
    case (Some desc)
    from Cons.prems [unfolded Some] show ?thesis
    proof (cases rule: resolveArgs_Some_cases)
      case (root_failed rp)
      then show ?thesis using IH by blast
    next
      case (undefined rootVal)
      then show ?thesis using IH by blast
    next
      case (resolved rootVal s1)
      from IH [OF resolved(1)] Cons.IH [OF resolved(3)] show ?thesis by (rule grows_trans)
    qed
  qed
qed

lemma invokeRecipe_grows:
  assumes IH: "\<And>s tok r s'. prepare n K s tok = (r, s') \<Longrightarrow> grows s s'"
    and "invokeRecipe n K s c = (r, s')" and "valueCache s c = None"
  shows "grows s s'"
  using assms(2)
proof (cases rule: invokeRecipe_cases)
  case (args_failed ra)
  from grows_getInstance resolveArgs_grows [OF IH args_failed(1)] show ?thesis
    by (rule grows_trans)
next
  case (called args s1)
  from grows_getInstance resolveArgs_grows [OF IH called(1)] have "grows s s1"
    by (rule grows_trans)
  from grows_call [OF this assms(3)] called(3) show ?thesis by simp
qed

lemma prepare_grows:
  "prepare n K s tok = (r, s') \<Longrightarrow> grows s s'"
proof (induction n arbitrary: s tok r s')
  case 0
  then show ?case by (simp add: grows_refl)
next
  case (Suc n)
  from Suc.prems show ?case
  proof (cases rule: prepare_Suc_cases)
    case (pantry pv)
    then show ?thesis by (simp add: grows_refl)
  next
    case unresolved
    then show ?thesis by (simp add: grows_refl)
  next
    case (cached c v)
    then show ?thesis by (simp add: grows_refl)
  next
    case (failed c)
    from invokeRecipe_grows [OF Suc.IH failed(4) failed(3)] show ?thesis .
  next
    case (cooked c v s0)
    from invokeRecipe_grows [OF Suc.IH cooked(4) cooked(3)] have "grows s s0" .
    from grows_cache [OF this cooked(3)] cooked(6) show ?thesis by simp
  qed
qed












lemma prepare_pantry_same:
  "prepare n K s tok = (r, s') \<Longrightarrow> pantry s' = pantry s"
  using prepare_grows unfolding grows_def by blast


section \<open>Room on the stack, and resolution without cycles\<close>










section \<open>Resolution on a cycle\<close>

lemma resolveArgs_on_cycle:
  assumes IH: "\<And>s tok r s'. \<lbrakk>pantry s = p0; \<forall>c\<in>C. valueCache s c = None;
                   prepare n K s tok = (r, s')\<rbrakk>
                 \<Longrightarrow> (\<forall>c\<in>C. valueCache s' c = None) \<and>
                     (p0 tok = None \<and> (\<exists>c\<in>C. map_of (cookbook K) tok = Some c)
                        \<longrightarrow> (\<forall>v. r \<noteq> Returned v))"
    and "pantry s = p0" and "\<forall>c\<in>C. valueCache s c = None"
    and "resolveArgs n K s descs args = (r, s')"
  shows "(\<forall>c\<in>C. valueCache s' c = None) \<and>
         ((\<exists>d. Some d \<in> set descs \<and> p0 (rootToken d) = None \<and>
               (\<exists>c\<in>C. map_of (cookbook K) (rootToken d) = Some c))
            \<longrightarrow> (\<forall>v. r \<noteq> Returned v))"
  using assms(2,3,4)
proof (induction descs arbitrary: s args)
  case Nil
  then show ?case by simp
next
  case (Cons d descs)
  show ?case
  proof (cases d)
    case None
    with Cons.prems have "resolveArgs n K s descs (args @ [JUndefined]) = (r, s')" by simp
    from Cons.IH [OF Cons.prems(1,2) this] None show ?thesis by simp
  next
    case (Some desc)
    from Cons.prems(3) [unfolded Some] show ?thesis
    proof (cases rule: resolveArgs_Some_cases)
      case (root_failed rp)
      from root_failed(2) have "\<forall>v. r \<noteq> Returned v" unfolding passes_def by auto
      with IH [OF Cons.prems(1,2) root_failed(1)] show ?thesis by simp
    next
      case (undefined rootVal)
      from IH [OF Cons.prems(1,2) undefined(1)] undefined(3) show ?thesis by simp
    next
      case (resolved rootVal s1)
      from IH [OF Cons.prems(1,2) resolved(1)]
      have i1: "\<forall>c\<in>C. valueCache s1 c = None"
        and nc: "\<not> (p0 (rootToken desc) = None \<and> (\<exists>c\<in>C. map_of (cookbook K) (rootToken desc) = Some c))"
        by auto
      from prepare_pantry_same [OF resolved(1)] Cons.prems(1) have p1: "pantry s1 = p0" by simp
      from Cons.IH [OF p1 i1 resolved(3)] nc Some show ?thesis by auto
    qed
  qed
qed

lemma prepare_on_cycle:
  assumes closed: "\<forall>c\<in>C. \<exists>d. Some d \<in> set (paramDescs (classes K c)) \<and> p0 (rootToken d) = None \<and>
                      (\<exists>c'\<in>C. map_of (cookbook K) (rootToken d) = Some c')"
    and "pantry s = p0" and "\<forall>c\<in>C. valueCache s c = None"
    and "prepare n K s tok = (r, s')"
  shows "(\<forall>c\<in>C. valueCache s' c = None) \<and>
         (p0 tok = None \<and> (\<exists>c\<in>C. map_of (cookbook K) tok = Some c) \<longrightarrow> (\<forall>v. r \<noteq> Returned v))"
  using assms(2,3,4)
proof (induction n arbitrary: s tok r s')
  case 0
  then show ?case by auto
next
  case (Suc n)
  note inv = Suc.prems(1,2)
  from Suc.prems(3) show ?case
  proof (cases rule: prepare_Suc_cases)
    case (pantry pv)
    with inv show ?thesis by auto
  next
    case unresolved
    with inv show ?thesis by simp
  next
    case (cached c v)
    with inv show ?thesis by auto
  next
    case (failed c)
    have gi: "pantry (getInstance s c) = p0" "\<forall>c'\<in>C. valueCache (getInstance s c) c' = None"
      using inv unfolding getInstance_def by simp_all
    from failed(4) have "\<forall>c\<in>C. valueCache s' c = None"
    proof (cases rule: invokeRecipe_cases)
      case (args_failed ra)
      from resolveArgs_on_cycle [OF Suc.IH gi args_failed(1)] show ?thesis by simp
    next
      case (called args s1)
      from resolveArgs_on_cycle [OF Suc.IH gi called(1)] called(3) show ?thesis by simp
    qed
    moreover from failed(5) have "\<forall>v. r \<noteq> Returned v" unfolding passes_def by auto
    ultimately show ?thesis by simp
  next
    case (cooked c v s0)
    have gi: "pantry (getInstance s c) = p0" "\<forall>c'\<in>C. valueCache (getInstance s c) c' = None"
      using inv unfolding getInstance_def by simp_all
    from cooked(4) have s0: "(\<forall>c'\<in>C. valueCache s0 c' = None) \<and> c \<notin> C"
    proof (cases rule: invokeRecipe_cases)
      case (args_failed ra)
      then show ?thesis by simp
    next
      case (called args s1)
      from resolveArgs_on_cycle [OF Suc.IH gi called(1)]
      have a: "\<forall>c'\<in>C. valueCache s1 c' = None"
        and b: "\<not> (\<exists>d. Some d \<in> set (paramDescs (classes K c)) \<and> p0 (rootToken d) = None \<and>
               (\<exists>c'\<in>C. map_of (cookbook K) (rootToken d) = Some c'))"
        by auto
      from b closed have "c \<notin> C" by blast
      with a called(3) show ?thesis by simp
    qed
    with cooked(6) have "\<forall>c'\<in>C. valueCache s' c' = None" by auto
    moreover from s0 cooked(2) have "\<not> (\<exists>c'\<in>C. map_of (cookbook K) tok = Some c')" by auto
    ultimately show ?thesis by simp
  qed
qed





lemma cycle_closed:
  assumes edge: "\<And>u t. (u, t) \<in> R \<Longrightarrow>
                   pantry s t = None \<and> (\<exists>c. map_of (cookbook K) t = Some c \<and> E c u)"
    and cyc: "(tok, tok) \<in> R\<^sup>+"
    and C: "C = {c. \<exists>t. (t, tok) \<in> R\<^sup>* \<and> (tok, t) \<in> R\<^sup>* \<and> map_of (cookbook K) t = Some c}"
  shows "\<forall>c\<in>C. \<exists>u. E c u \<and> pantry s u = None \<and> (\<exists>c'\<in>C. map_of (cookbook K) u = Some c')"
    and "pantry s tok = None \<and> (\<exists>c\<in>C. map_of (cookbook K) tok = Some c)"
    and "\<And>t. (t, tok) \<in> R\<^sup>* \<Longrightarrow> (tok, t) \<in> R\<^sup>* \<Longrightarrow>
           pantry s t = None \<and> (\<exists>c\<in>C. map_of (cookbook K) t = Some c)"
proof -
  have on: "(t, t) \<in> R\<^sup>+" if "(t, tok) \<in> R\<^sup>*" "(tok, t) \<in> R\<^sup>*" for t
    using that cyc by (meson rtrancl_trancl_trancl trancl_rtrancl_trancl)
  show served: "pantry s t = None \<and> (\<exists>c\<in>C. map_of (cookbook K) t = Some c)"
    if t: "(t, tok) \<in> R\<^sup>*" "(tok, t) \<in> R\<^sup>*" for t
  proof -
    from on [OF t] obtain w where "(w, t) \<in> R" by (meson tranclD2)
    from edge [OF this] obtain c where "pantry s t = None" "map_of (cookbook K) t = Some c" by blast
    moreover from this t have "c \<in> C" unfolding C by blast
    ultimately show ?thesis by blast
  qed
  show "\<forall>c\<in>C. \<exists>u. E c u \<and> pantry s u = None \<and> (\<exists>c'\<in>C. map_of (cookbook K) u = Some c')"
  proof
    fix c assume "c \<in> C"
    then obtain t where t: "(t, tok) \<in> R\<^sup>*" "(tok, t) \<in> R\<^sup>*" and m: "map_of (cookbook K) t = Some c"
      unfolding C by blast
    from on [OF t] obtain u where u: "(t, u) \<in> R\<^sup>*" "(u, t) \<in> R" by (meson tranclD2)
    from edge [OF u(2)] m have e: "E c u" by auto
    from u t have "(u, tok) \<in> R\<^sup>*" "(tok, u) \<in> R\<^sup>*"
      by (meson converse_rtrancl_into_rtrancl rtrancl_trans)+
    from served [OF this] e
    show "\<exists>u. E c u \<and> pantry s u = None \<and> (\<exists>c'\<in>C. map_of (cookbook K) u = Some c')" by blast
  qed
  show "pantry s tok = None \<and> (\<exists>c\<in>C. map_of (cookbook K) tok = Some c)"
    by (rule served) simp_all
qed

lemma cycle_never_value:
  assumes "(tok, tok) \<in> (depends_on K s)\<^sup>+" and "cycle_uncached (depends_on K s) K s tok"
  shows "fst (prepare n K s tok) \<noteq> Returned v"
proof
  assume f: "fst (prepare n K s tok) = Returned v"
  obtain s' where p: "prepare n K s tok = (Returned v, s')"
    using f by (cases "prepare n K s tok") auto
  define R where "R = depends_on K s"
  define C where "C = {c. \<exists>t. (t, tok) \<in> R\<^sup>* \<and> (tok, t) \<in> R\<^sup>* \<and> map_of (cookbook K) t = Some c}"
  have edge: "pantry s t = None \<and>
              (\<exists>c. map_of (cookbook K) t = Some c \<and>
                   (\<exists>d. Some d \<in> set (paramDescs (classes K c)) \<and> rootToken d = u))"
    if "(u, t) \<in> R" for u t
    using that unfolding R_def depends_on_def by auto
  note cl = cycle_closed [where E = "\<lambda>c u. \<exists>d. Some d \<in> set (paramDescs (classes K c)) \<and> rootToken d = u",
      OF edge assms(1) [folded R_def] C_def]
  from cl(1) have closed: "\<forall>c\<in>C. \<exists>d. Some d \<in> set (paramDescs (classes K c)) \<and>
       pantry s (rootToken d) = None \<and> (\<exists>c'\<in>C. map_of (cookbook K) (rootToken d) = Some c')"
    by blast
  from assms(2) have unc: "\<forall>c\<in>C. valueCache s c = None"
    unfolding cycle_uncached_def C_def R_def by blast
  from prepare_on_cycle [OF closed refl unc p] cl(2) show False by simp
qed



section \<open>Failures of the summary probe\<close>




section \<open>The plates of a result\<close>


section \<open>Facts about the kitchen of the examples\<close>




section \<open>Reading results off a run\<close>


lemma explained_caseE:
  assumes "case c of (Returned (Explained res), s') \<Rightarrow> P res s' | _ \<Rightarrow> False"
  obtains res s' where "c = (Returned (Explained res), s')" and "P res s'"
proof -
  obtain r s' where 1: "c = (r, s')" by (cases c) auto
  with assms obtain x where 2: "r = Returned x" by (cases r) auto
  with 1 assms obtain res where 3: "x = Explained res" by (cases x) auto
  with 1 2 assms have "P res s'" by simp
  with 1 2 3 that show thesis by blast
qed

section \<open>The claims\<close>

text \<open>
  C1. With a budget and an order that is not empty, a \<open>cook\<close> call that returns has
  served the first item whatever it costs and whatever the budget is: its rendering is
  the first line of the text; in explain mode its plate is the first plate, with
  decision "forced-include", starting at 0 and ending at its cost. The compressed form is
  served only if the compressed rendering is there (and not empty), the compressed cost
  is there and is strictly less than the baseline cost; otherwise the baseline form is
  served at the baseline cost. The cost it is served at is in the planner's running
  total before any other item is looked at: the total the planner ends with is this
  cost and the costs of the candidates it included; a candidate that is included fits
  in the budget on top of this cost and of the candidates included before it, and for a
  candidate that is dropped not even the baseline cost does. In explain mode
  \<open>totalTokens\<close> is the planner's total.
\<close>

theorem first_item_forced:
  assumes "cook n K s options = (Returned r, s')"
    and "budgetOf options = Some b"
    and "orderListNormalized K options = (tok, detail, idx) # ord"
  shows "\<exists>first items pl total.
           preparedItemsOf n K s options = (Returned (first # items), s')
         \<and> token first = tok
         \<and> (usedCompressed (planFirst first) \<longrightarrow>
               truthy (compressedRendered first) \<and>
               (\<exists>c. compressedCost first = Some c \<and> c < baselineCost first \<and>
                    usedCost (planFirst first) = c) \<and>
               usedRendered (planFirst first) = compressedRendered first)
         \<and> (\<not> usedCompressed (planFirst first) \<longrightarrow>
               usedCost (planFirst first) = baselineCost first \<and>
               usedRendered (planFirst first) = baselineRendered first)
         \<and> (\<exists>lines. (case r of ContextOnly c \<Rightarrow> c | Explained res \<Rightarrow> context_text res) =
               join [CHR 0x0A] ((text_of (usedRendered (planFirst first)) @ [CHR 0x0A]) # lines))
         \<and> selectPlan (Some b) (first # items) = (pl, total)
         \<and> pl (index first) = Some (planFirst first)
         \<and> total = spent pl (usedCost (planFirst first)) (candidates (first # items))
         \<and> (\<forall>k<length (candidates (first # items)).
               (plan_include (the (pl (index (candidates (first # items) ! k)))) \<longrightarrow>
                  spent pl (usedCost (planFirst first)) (take k (candidates (first # items)))
                    + usedCost (the (pl (index (candidates (first # items) ! k)))) \<le> b) \<and>
               (\<not> plan_include (the (pl (index (candidates (first # items) ! k)))) \<longrightarrow>
                  b < spent pl (usedCost (planFirst first)) (take k (candidates (first # items)))
                        + baselineCost (candidates (first # items) ! k)))
         \<and> (\<forall>res. r = Explained res \<longrightarrow>
               plates res \<noteq> []
             \<and> plate_token (hd (plates res)) = tok
             \<and> decision (hd (plates res)) = ForcedInclude
             \<and> wasCompressed (hd (plates res)) = usedCompressed (planFirst first)
             \<and> originalCost (hd (plates res)) = baselineCost first
             \<and> plate_compressedCost (hd (plates res)) = compressedCost first
             \<and> cost (hd (plates res)) = usedCost (planFirst first)
             \<and> runningTotalBefore (hd (plates res)) = 0
             \<and> runningTotalAfter (hd (plates res)) = cost (hd (plates res))
             \<and> totalTokens res = total)"
proof -
  from assms(1) obtain its where
    it: "preparedItemsOf n K s options = (Returned its, s')" and
    r: "r = plateAll (budgetOf options) (explainOf options)
               (fst (selectPlan (budgetOf options) its)) its"
    by (rule cook_Returned)
  from preparedItemsOf_fields [OF it] assms(3)
  have idx: "map index its = [0..<length its]"
    and tk: "map token its = tok # map (\<lambda>(t, d, i). t) ord"
    and len: "length its = Suc (length ord)"
    by simp_all
  from len obtain first items where its: "its = first # items" by (cases its) auto
  from tk its have tok: "token first = tok" by simp
  have "[0..<length its] = 0 # [Suc 0..<length its]"
    using its by (intro upt_conv_Cons) simp
  with idx its have i0: "index first = 0" by simp
  from idx have dist: "distinct (map index its)" by simp
  with its have nin: "index first \<notin> index ` set items" by simp
  obtain pl total where sel: "selectPlan (Some b) (first # items) = (pl, total)"
    and fo: "foldl (planCandidate b)
         (Map.empty(index first \<mapsto> planFirst first), usedCost (planFirst first))
         (candidates (first # items)) = (pl, total)"
    by (rule selectPlan_budget)
  from sel its have pl: "pl = fst (selectPlan (Some b) its)" by simp
  have plf: "pl (index first) = Some (planFirst first)"
    unfolding pl its using selectPlan_first [OF nin] by simp
  have dom: "\<forall>p \<in> set its. pl (index p) \<noteq> None"
    unfolding pl using selectPlan_budget_dom by blast
  have r': "r = plateAll (Some b) (explainOf options) pl its"
    using r assms(2) pl by simp
  from dist its have dc: "distinct (map index (candidates (first # items)))"
    using distinct_candidates by blast
  note sp = planCandidate_fold_spent [OF dc fo]
  from sp have tot: "total = spent pl (usedCost (planFirst first)) (candidates (first # items))"
    by (rule conjunct1)
  have each: "\<forall>k<length (candidates (first # items)).
               (plan_include (the (pl (index (candidates (first # items) ! k)))) \<longrightarrow>
                  spent pl (usedCost (planFirst first)) (take k (candidates (first # items)))
                    + usedCost (the (pl (index (candidates (first # items) ! k)))) \<le> b) \<and>
               (\<not> plan_include (the (pl (index (candidates (first # items) ! k)))) \<longrightarrow>
                  b < spent pl (usedCost (planFirst first)) (take k (candidates (first # items)))
                        + baselineCost (candidates (first # items) ! k))"
    using sp by blast
  have ctx: "\<exists>lines. (case r of ContextOnly c \<Rightarrow> c | Explained res \<Rightarrow> context_text res) =
               join [CHR 0x0A] ((text_of (usedRendered (planFirst first)) @ [CHR 0x0A]) # lines)"
  proof -
    have "fst (foldl (plateItem (Some b) (explainOf options) pl) ([], 0, []) its) =
          (text_of (usedRendered (planFirst first)) @ [CHR 0x0A]) #
          map (\<lambda>p. text_of (usedRendered (the (pl (index p)))) @ [CHR 0x0A])
              (filter (\<lambda>p. plan_include (the (pl (index p)))) items)"
      using plateItem_fold_lines [OF dom, of "Some b" "explainOf options" "[]" 0 "[]"]
      unfolding its by (simp add: plf planFirst_facts(1))
    then show ?thesis unfolding r' plateAll_context by (intro exI) simp
  qed
  have ex: "plates res \<noteq> []
             \<and> plate_token (hd (plates res)) = tok
             \<and> decision (hd (plates res)) = ForcedInclude
             \<and> wasCompressed (hd (plates res)) = usedCompressed (planFirst first)
             \<and> originalCost (hd (plates res)) = baselineCost first
             \<and> plate_compressedCost (hd (plates res)) = compressedCost first
             \<and> cost (hd (plates res)) = usedCost (planFirst first)
             \<and> runningTotalBefore (hd (plates res)) = 0
             \<and> runningTotalAfter (hd (plates res)) = cost (hd (plates res))
             \<and> totalTokens res = total"
    if "r = Explained res" for res
  proof -
    from that r' have pa: "plateAll (Some b) (explainOf options) pl its = Explained res" by simp
    note f = plateAll_explained_fields [OF pa]
    from plateItem_fold_plates [OF dom, of "Some b" "[]" 0 "[]"] f(2)
    have m: "map (\<lambda>q. (plate_token q, decision q, wasCompressed q, cost q, originalCost q, plate_compressedCost q))
               (plates res) =
             map (\<lambda>p. (token p, decide (Some b) (the (pl (index p))) p, usedCompressed (the (pl (index p))),
                    usedCost (the (pl (index p))), baselineCost p, compressedCost p)) its"
      by simp
    from arg_cong [OF m, of length] have "length (plates res) = length its" by simp
    with its obtain q qs where ps: "plates res = q # qs" by (cases "plates res") auto
    from m ps its plf have q: "plate_token q = token first"
      "decision q = decide (Some b) (planFirst first) first"
      "wasCompressed q = usedCompressed (planFirst first)"
      "cost q = usedCost (planFirst first)" "originalCost q = baselineCost first"
      "plate_compressedCost q = compressedCost first"
      by simp_all
    from q(2) i0 have d: "decision q = ForcedInclude"
      unfolding decide_def by (simp add: planFirst_facts(1))
    from plateAll_explained(2) [OF pa] have c: "chain_ok (totalTokens res) (plates res)" .
    from c have "\<forall>i<length (plates res).
        runningTotalBefore (plates res ! i) = (if i = 0 then 0 else runningTotalAfter (plates res ! (i - 1))) \<and>
        runningTotalAfter (plates res ! i) =
          runningTotalBefore (plates res ! i) + (if decision (plates res ! i) = Dropped then 0 else cost (plates res ! i))"
      unfolding chain_ok_def by (rule conjunct1)
    from this [rule_format, of 0] ps have "runningTotalBefore q = 0"
      and "runningTotalAfter q = runningTotalBefore q + (if decision q = Dropped then 0 else cost q)"
      by simp_all
    with d have rt: "runningTotalBefore q = 0" "runningTotalAfter q = cost q" by simp_all
    from plateItem_fold_lines [OF dom, of "Some b" True "[]" 0 "[]"] f(1)
    have "totalTokens res = spent pl 0 its" unfolding spent_def by simp
    also have "\<dots> = spent pl (usedCost (planFirst first)) items"
      unfolding its spent_Cons plf by (simp add: planFirst_facts(1))
    also have "\<dots> = spent pl (usedCost (planFirst first)) (candidates (first # items))"
      by (rule spent_mset) (simp add: mset_candidates)
    finally have tt: "totalTokens res = total" using tot by simp
    from ps q d rt tok tt show ?thesis by simp
  qed
  show ?thesis
  proof (intro exI [where x = first] exI [where x = items] exI [where x = pl]
      exI [where x = total] conjI)
    from it its show "preparedItemsOf n K s options = (Returned (first # items), s')" by simp
    from tok show "token first = tok" .
    from planFirst_facts(2) [of first]
    show "usedCompressed (planFirst first) \<longrightarrow>
               truthy (compressedRendered first) \<and>
               (\<exists>c. compressedCost first = Some c \<and> c < baselineCost first \<and>
                    usedCost (planFirst first) = c) \<and>
               usedRendered (planFirst first) = compressedRendered first" by blast
    from planFirst_facts(3) [of first]
    show "\<not> usedCompressed (planFirst first) \<longrightarrow>
               usedCost (planFirst first) = baselineCost first \<and>
               usedRendered (planFirst first) = baselineRendered first" by blast
    from ctx show "\<exists>lines. (case r of ContextOnly c \<Rightarrow> c | Explained res \<Rightarrow> context_text res) =
               join [CHR 0x0A] ((text_of (usedRendered (planFirst first)) @ [CHR 0x0A]) # lines)" .
    from sel show "selectPlan (Some b) (first # items) = (pl, total)" .
    from plf show "pl (index first) = Some (planFirst first)" .
    from tot show "total = spent pl (usedCost (planFirst first)) (candidates (first # items))" .
    from each show "\<forall>k<length (candidates (first # items)).
               (plan_include (the (pl (index (candidates (first # items) ! k)))) \<longrightarrow>
                  spent pl (usedCost (planFirst first)) (take k (candidates (first # items)))
                    + usedCost (the (pl (index (candidates (first # items) ! k)))) \<le> b) \<and>
               (\<not> plan_include (the (pl (index (candidates (first # items) ! k)))) \<longrightarrow>
                  b < spent pl (usedCost (planFirst first)) (take k (candidates (first # items)))
                        + baselineCost (candidates (first # items) ! k))" .
    from ex show "\<forall>res. r = Explained res \<longrightarrow>
               plates res \<noteq> []
             \<and> plate_token (hd (plates res)) = tok
             \<and> decision (hd (plates res)) = ForcedInclude
             \<and> wasCompressed (hd (plates res)) = usedCompressed (planFirst first)
             \<and> originalCost (hd (plates res)) = baselineCost first
             \<and> plate_compressedCost (hd (plates res)) = compressedCost first
             \<and> cost (hd (plates res)) = usedCost (planFirst first)
             \<and> runningTotalBefore (hd (plates res)) = 0
             \<and> runningTotalAfter (hd (plates res)) = cost (hd (plates res))
             \<and> totalTokens res = total" by blast
  qed
qed

theorem first_item_forced_witness:
  "(\<exists>res s'.
      cook 3 demo_kitchen demo_chef (Some (demo_options [''Hist'', ''Sys''] (Some 1)))
        = (Returned (Explained res), s')
      \<and> map decision (plates res) = [ForcedInclude, Dropped]
      \<and> map wasCompressed (plates res) = [True, False]
      \<and> map originalCost (plates res) = [13, 2]
      \<and> map cost (plates res) = [3, 2]
      \<and> totalTokens res = 3
      \<and> plate_token (hd (plates res)) = ''Hist''
      \<and> decision (hd (plates res)) = ForcedInclude
      \<and> runningTotalBefore (hd (plates res)) = 0
      \<and> runningTotalAfter (hd (plates res)) = cost (hd (plates res)))
   \<and> (\<exists>res s' first items pl total.
      cook 3 demo_kitchen demo_chef (Some (demo_options [''Hist'', ''Sys''] (Some 4)))
        = (Returned (Explained res), s')
      \<and> map decision (plates res) = [ForcedInclude, Dropped]
      \<and> map originalCost (plates res) = [13, 2]
      \<and> map cost (plates res) = [3, 2]
      \<and> selectPlan (Some 4) (first # items) = (pl, total)
      \<and> total = spent pl (usedCost (planFirst first)) (candidates (first # items))
      \<and> totalTokens res = total
      \<and> total = 3)"
proof (rule conjI)
  let ?o = "Some (demo_options [''Hist'', ''Sys''] (Some 1))"
  let ?c = "cook 3 demo_kitchen demo_chef ?o"
  have "case ?c of
          (Returned (Explained res), s') \<Rightarrow>
            map decision (plates res) = [ForcedInclude, Dropped]
            \<and> map wasCompressed (plates res) = [True, False]
            \<and> map originalCost (plates res) = [13, 2]
            \<and> map cost (plates res) = [3, 2]
            \<and> totalTokens res = 3
        | _ \<Rightarrow> False"
    by code_simp
  then obtain res s' where c: "?c = (Returned (Explained res), s')"
    and v: "map decision (plates res) = [ForcedInclude, Dropped]
            \<and> map wasCompressed (plates res) = [True, False]
            \<and> map originalCost (plates res) = [13, 2]
            \<and> map cost (plates res) = [3, 2]
            \<and> totalTokens res = 3"
    by (rule explained_caseE)
  have b: "budgetOf ?o = Some 1" by (simp add: budgetOf_def demo_options_def)
  have o: "orderListNormalized demo_kitchen ?o = (''Hist'', ''full'', 0) # [(''Sys'', ''full'', 1)]"
    by code_simp
  from first_item_forced [OF c b o]
  have "plate_token (hd (plates res)) = ''Hist''
      \<and> decision (hd (plates res)) = ForcedInclude
      \<and> runningTotalBefore (hd (plates res)) = 0
      \<and> runningTotalAfter (hd (plates res)) = cost (hd (plates res))"
    by blast
  with c v show "\<exists>res s'. ?c = (Returned (Explained res), s')
      \<and> map decision (plates res) = [ForcedInclude, Dropped]
      \<and> map wasCompressed (plates res) = [True, False]
      \<and> map originalCost (plates res) = [13, 2]
      \<and> map cost (plates res) = [3, 2]
      \<and> totalTokens res = 3
      \<and> plate_token (hd (plates res)) = ''Hist''
      \<and> decision (hd (plates res)) = ForcedInclude
      \<and> runningTotalBefore (hd (plates res)) = 0
      \<and> runningTotalAfter (hd (plates res)) = cost (hd (plates res))"
    by (intro exI [where x = res] exI [where x = s']) simp
next
  let ?o = "Some (demo_options [''Hist'', ''Sys''] (Some 4))"
  let ?c = "cook 3 demo_kitchen demo_chef ?o"
  have "case ?c of
          (Returned (Explained res), s') \<Rightarrow>
            map decision (plates res) = [ForcedInclude, Dropped]
            \<and> map originalCost (plates res) = [13, 2]
            \<and> map cost (plates res) = [3, 2]
            \<and> totalTokens res = 3
        | _ \<Rightarrow> False"
    by code_simp
  then obtain res s' where c: "?c = (Returned (Explained res), s')"
    and v: "map decision (plates res) = [ForcedInclude, Dropped]
            \<and> map originalCost (plates res) = [13, 2]
            \<and> map cost (plates res) = [3, 2]
            \<and> totalTokens res = 3"
    by (rule explained_caseE)
  have b: "budgetOf ?o = Some 4" by (simp add: budgetOf_def demo_options_def)
  have o: "orderListNormalized demo_kitchen ?o = (''Hist'', ''full'', 0) # [(''Sys'', ''full'', 1)]"
    by code_simp
  from first_item_forced [OF c b o]
  obtain first items pl total where
    "selectPlan (Some 4) (first # items) = (pl, total)"
    "total = spent pl (usedCost (planFirst first)) (candidates (first # items))"
    "totalTokens res = total"
    by blast
  with c v show "\<exists>res s' first items pl total. ?c = (Returned (Explained res), s')
      \<and> map decision (plates res) = [ForcedInclude, Dropped]
      \<and> map originalCost (plates res) = [13, 2]
      \<and> map cost (plates res) = [3, 2]
      \<and> selectPlan (Some 4) (first # items) = (pl, total)
      \<and> total = spent pl (usedCost (planFirst first)) (candidates (first # items))
      \<and> totalTokens res = total
      \<and> total = 3"
    by (intro exI [where x = res] exI [where x = s'] exI [where x = first]
        exI [where x = items] exI [where x = pl] exI [where x = total]) simp
qed

text \<open>
  C2. Without a budget, a \<open>cook\<close> call that returns serves every item of the order it
  works on, in that order, at the baseline rendering and the baseline cost: the text is
  the baseline renderings joined, every plate is "included", none is compressed, each
  costs its baseline cost, and \<open>totalTokens\<close> is the sum of the baseline costs.
\<close>

theorem cook_without_budget:
  assumes "cook n K s options = (Returned r, s')" and "budgetOf options = None"
  shows "\<exists>items.
           preparedItemsOf n K s options = (Returned items, s')
         \<and> map token items = map (\<lambda>(t, d, i). t) (orderListNormalized K options)
         \<and> (case r of ContextOnly c \<Rightarrow> c | Explained res \<Rightarrow> context_text res) =
             join [CHR 0x0A] (map (\<lambda>p. text_of (baselineRendered p) @ [CHR 0x0A]) items)
         \<and> (\<forall>res. r = Explained res \<longrightarrow>
               map plate_token (plates res) = map token items
             \<and> (\<forall>p \<in> set (plates res).
                   decision p = Included \<and> \<not> wasCompressed p \<and> cost p = originalCost p)
             \<and> map originalCost (plates res) = map baselineCost items
             \<and> totalTokens res = sum_list (map baselineCost items))"
proof -
  from assms(1) obtain items where
    it: "preparedItemsOf n K s options = (Returned items, s')" and
    r: "r = plateAll (budgetOf options) (explainOf options)
               (fst (selectPlan (budgetOf options) items)) items"
    by (rule cook_Returned)
  define pl where "pl = fst (selectPlan None items)"
  from preparedItemsOf_fields [OF it]
  have idx: "map index items = [0..<length items]"
    and tok: "map token items = map (\<lambda>(t, d, i). t) (orderListNormalized K options)"
    by simp_all
  from idx have dist: "distinct (map index items)" by simp
  have plp: "pl (index p) = Some (unbudgeted p)" if "p \<in> set items" for p
    unfolding pl_def selectPlan_def using planUnbudgeted_fold [OF dist that] by simp
  then have dom: "\<forall>p \<in> set items. pl (index p) \<noteq> None" by simp
  have inc: "filter (\<lambda>p. plan_include (the (pl (index p)))) items = items"
    by (rule filter_True) (simp add: plp unbudgeted_def)
  have r': "r = plateAll None (explainOf options) pl items"
    using r assms(2) pl_def by simp
  have ctx: "(case r of ContextOnly c \<Rightarrow> c | Explained res \<Rightarrow> context_text res) =
             join [CHR 0x0A] (map (\<lambda>p. text_of (baselineRendered p) @ [CHR 0x0A]) items)"
  proof -
    have "map (\<lambda>p. text_of (usedRendered (the (pl (index p)))) @ [CHR 0x0A]) items =
          map (\<lambda>p. text_of (baselineRendered p) @ [CHR 0x0A]) items"
      by (rule map_cong) (simp_all add: plp unbudgeted_def)
    with plateItem_fold_lines [OF dom, of None "explainOf options" "[]" 0 "[]"] inc
    show ?thesis unfolding r' plateAll_context by simp
  qed
  have ex: "map plate_token (plates res) = map token items
             \<and> (\<forall>p \<in> set (plates res).
                   decision p = Included \<and> \<not> wasCompressed p \<and> cost p = originalCost p)
             \<and> map originalCost (plates res) = map baselineCost items
             \<and> totalTokens res = sum_list (map baselineCost items)"
    if "r = Explained res" for res
  proof -
    from that r' have pa: "plateAll None (explainOf options) pl items = Explained res" by simp
    note f = plateAll_explained_fields [OF pa]
    have "map (\<lambda>p. usedCost (the (pl (index p)))) items = map baselineCost items"
      by (rule map_cong) (simp_all add: plp unbudgeted_def)
    with plateItem_fold_lines [OF dom, of None True "[]" 0 "[]"] inc f(1)
    have tt: "totalTokens res = sum_list (map baselineCost items)" by simp
    have "map (\<lambda>p. (token p, decide None (the (pl (index p))) p, usedCompressed (the (pl (index p))),
                    usedCost (the (pl (index p))), baselineCost p, compressedCost p)) items =
          map (\<lambda>p. (token p, Included, False, baselineCost p, baselineCost p, compressedCost p)) items"
      by (rule map_cong) (simp_all add: plp unbudgeted_def decide_def)
    with plateItem_fold_plates [OF dom, of None "[]" 0 "[]"] f(2)
    have m: "map (\<lambda>q. (plate_token q, decision q, wasCompressed q, cost q, originalCost q, plate_compressedCost q))
               (plates res) =
             map (\<lambda>p. (token p, Included, False, baselineCost p, baselineCost p, compressedCost p)) items"
      by simp
    from arg_cong [OF m, of "map fst"] have m1: "map plate_token (plates res) = map token items"
      by (simp add: comp_def)
    from arg_cong [OF m, of "map (\<lambda>t. fst (snd (snd (snd (snd t)))))"]
    have m2: "map originalCost (plates res) = map baselineCost items"
      by (simp add: comp_def)
    have m3: "decision p = Included \<and> \<not> wasCompressed p \<and> cost p = originalCost p"
      if "p \<in> set (plates res)" for p
    proof -
      from that have "(plate_token p, decision p, wasCompressed p, cost p, originalCost p, plate_compressedCost p)
          \<in> set (map (\<lambda>q. (plate_token q, decision q, wasCompressed q, cost q, originalCost q, plate_compressedCost q)) (plates res))"
        by (auto intro!: image_eqI [where x = p])
      then show ?thesis unfolding m by auto
    qed
    from m1 m2 m3 tt show ?thesis by blast
  qed
  from it tok ctx ex show ?thesis by blast
qed

theorem cook_without_budget_witness:
  "\<exists>res s'.
     cook 3 demo_kitchen demo_chef (Some (demo_options [''Sys'', ''Hist'', ''Doc''] None))
       = (Returned (Explained res), s')
     \<and> map plate_token (plates res) = [''Sys'', ''Hist'', ''Doc'']
     \<and> map plate_compressedCost (plates res) = [None, Some 3, Some 0]
     \<and> map cost (plates res) = [2, 13, 10]
     \<and> totalTokens res = 25
     \<and> (\<forall>p \<in> set (plates res).
           decision p = Included \<and> \<not> wasCompressed p \<and> cost p = originalCost p)"
proof -
  let ?o = "Some (demo_options [''Sys'', ''Hist'', ''Doc''] None)"
  let ?c = "cook 3 demo_kitchen demo_chef ?o"
  have "case ?c of
          (Returned (Explained res), s') \<Rightarrow>
            map plate_token (plates res) = [''Sys'', ''Hist'', ''Doc'']
            \<and> map plate_compressedCost (plates res) = [None, Some 3, Some 0]
            \<and> map cost (plates res) = [2, 13, 10]
            \<and> totalTokens res = 25
        | _ \<Rightarrow> False"
    by code_simp
  then obtain res s' where c: "?c = (Returned (Explained res), s')"
    and v: "map plate_token (plates res) = [''Sys'', ''Hist'', ''Doc'']
            \<and> map plate_compressedCost (plates res) = [None, Some 3, Some 0]
            \<and> map cost (plates res) = [2, 13, 10]
            \<and> totalTokens res = 25"
    by (rule explained_caseE)
  have b: "budgetOf ?o = None" by (simp add: budgetOf_def demo_options_def)
  from cook_without_budget [OF c b]
  have "\<forall>p \<in> set (plates res).
           decision p = Included \<and> \<not> wasCompressed p \<and> cost p = originalCost p"
    by blast
  with c v show ?thesis by (intro exI [where x = res] exI [where x = s']) simp
qed

text \<open>
  C3, on an order whose second item has the empty text as its summary. \<open>Doc\<close> costs 10
  and its compressed form costs 0; after the first item the running total is 2 of a
  budget of 5. The baseline does not fit, the compressed cost does (2 + 0 \<le> 5), and the
  item is dropped: the planner tests the compressed rendering for truthiness, and the
  empty text is falsy.
\<close>

theorem empty_summary_is_dropped:
  "(case cook 3 demo_kitchen demo_chef (Some (demo_options [''Sys'', ''Doc''] (Some 5))) of
      (Returned (Explained res), s') \<Rightarrow>
        result_budget res = Some 5
        \<and> map plate_token (plates res) = [''Sys'', ''Doc'']
        \<and> map decision (plates res) = [ForcedInclude, Dropped]
        \<and> map runningTotalBefore (plates res) = [0, 2]
        \<and> map originalCost (plates res) = [2, 10]
        \<and> map plate_compressedCost (plates res) = [None, Some 0]
        \<and> map plate_reason (plates res) =
            [''first item is always included'', ''excluded due to budget/priority'']
    | _ \<Rightarrow> False)"
  by code_simp






text \<open>
  C6. For an ingredient with a declared sub-path whose root token resolved to a value,
  the value handed to the provider is what the sub-path extracts from the root value
  (whatever evaluator \<open>JSONPath\<close> is): if the extraction gives \<open>undefined\<close>, the
  resolution of the ingredients fails there with the error of \<open>invokeRecipe\<close> (the
  spec's ContractViolation); if it gives anything else, the resolution goes on with the
  extracted value as the argument at this position, which is therefore never
  \<open>undefined\<close>. With the spec's sub-path grammar, \<open>.a.b[1]\<close> extracts 20 from
  \<open>{a: {b: [10, 20]}}\<close> and \<open>.a.c\<close> fails.
\<close>

theorem subpath_extraction:
  assumes "truthy (jsonPath desc)"
    and "prepare n K s (rootToken desc) = (Returned rootVal, s1)"
  shows "(JSONPath K rootVal (the (jsonPath desc)) = JUndefined \<longrightarrow>
            resolveArgs n K s (Some desc # descs) args =
              (Threw (ContractViolation (ingredient_text desc)), s1))
       \<and> (JSONPath K rootVal (the (jsonPath desc)) \<noteq> JUndefined \<longrightarrow>
            resolveArgs n K s (Some desc # descs) args =
              resolveArgs n K s1 descs (args @ [JSONPath K rootVal (the (jsonPath desc))]))
       \<and> (\<forall>vs s'. resolveArgs n K s (Some desc # descs) args = (Returned vs, s') \<longrightarrow>
            length args < length vs \<and>
            vs ! length args = JSONPath K rootVal (the (jsonPath desc)) \<and>
            vs ! length args \<noteq> JUndefined)"
proof (intro conjI allI impI)
  from assms(1) have fv: "finalVal K desc rootVal = JSONPath K rootVal (the (jsonPath desc))"
    by (simp add: finalVal_def)
  { assume "JSONPath K rootVal (the (jsonPath desc)) = JUndefined"
    with assms(2) fv show "resolveArgs n K s (Some desc # descs) args =
              (Threw (ContractViolation (ingredient_text desc)), s1)" by simp }
  { assume "JSONPath K rootVal (the (jsonPath desc)) \<noteq> JUndefined"
    with assms(2) fv show "resolveArgs n K s (Some desc # descs) args =
              resolveArgs n K s1 descs (args @ [JSONPath K rootVal (the (jsonPath desc))])" by simp }
  fix vs s' assume r: "resolveArgs n K s (Some desc # descs) args = (Returned vs, s')"
  from r have nu: "JSONPath K rootVal (the (jsonPath desc)) \<noteq> JUndefined"
    using assms(2) fv by (auto split: if_splits)
  with r assms(2) fv
  have "resolveArgs n K s1 descs (args @ [JSONPath K rootVal (the (jsonPath desc))]) = (Returned vs, s')"
    by simp
  from resolveArgs_prefix [OF this] obtain more where
    "vs = (args @ [JSONPath K rootVal (the (jsonPath desc))]) @ more" by blast
  then have v: "length args < length vs" "vs ! length args = JSONPath K rootVal (the (jsonPath desc))"
    by (simp_all add: nth_append)
  from v show "length args < length vs" by simp
  from v show "vs ! length args = JSONPath K rootVal (the (jsonPath desc))" by simp
  from v nu show "vs ! length args \<noteq> JUndefined" by simp
qed

theorem subpath_extraction_witness:
  "parseIngredientSpec ''Root.a.b[1]'' = \<lparr> rootToken = ''Root'', jsonPath = Some ''$.a.b[1]'' \<rparr>
   \<and> resolveArgs 1 demo_kitchen demo_chef [Some (parseIngredientSpec ''Root.a.b[1]'')] [] =
       (Returned [JNum 20], demo_chef)
   \<and> resolveArgs 1 demo_kitchen demo_chef [Some (parseIngredientSpec ''Root.a.c'')] [] =
       (Threw (ContractViolation ''Root.a.c''), demo_chef)
   \<and> (\<lambda>(r, s). (r, prepare_calls s)) (prepare 2 demo_kitchen demo_chef ''Pick'') =
       (Returned (JArr [JNum 20]), [9])
   \<and> (\<lambda>(r, s). (r, prepare_calls s)) (prepare 2 demo_kitchen demo_chef ''PickBad'') =
       (Threw (ContractViolation ''Root.a.c''), [])"
proof -
  let ?root = "JObj [(''a'', JObj [(''b'', JArr [JNum 10, JNum 20])])]"
  let ?d1 = "parseIngredientSpec ''Root.a.b[1]''"
  let ?d2 = "parseIngredientSpec ''Root.a.c''"
  have p0: "parseIngredientSpec ''Root.a.b[1]'' = \<lparr> rootToken = ''Root'', jsonPath = Some ''$.a.b[1]'' \<rparr>"
    by code_simp
  have pr: "pantry demo_chef ''Root'' = Some (PantryValue ?root)"
    by (simp add: demo_chef_def new_Chef_def)
  have r1: "rootToken ?d1 = ''Root''" "rootToken ?d2 = ''Root''" by code_simp+
  have t: "truthy (jsonPath ?d1)" "truthy (jsonPath ?d2)" by code_simp+
  have j1: "JSONPath demo_kitchen ?root (the (jsonPath ?d1)) = JNum 20" by code_simp
  have j2: "JSONPath demo_kitchen ?root (the (jsonPath ?d2)) = JUndefined" by code_simp
  have i2: "ingredient_text ?d2 = ''Root.a.c''" by code_simp
  have p1: "prepare 1 demo_kitchen demo_chef (rootToken ?d1) = (Returned ?root, demo_chef)"
    unfolding r1 One_nat_def using pr by (rule prepare_pantry_value)
  have p2: "prepare 1 demo_kitchen demo_chef (rootToken ?d2) = (Returned ?root, demo_chef)"
    unfolding r1 One_nat_def using pr by (rule prepare_pantry_value)
  from subpath_extraction [OF t(1) p1, of "[]" "[]"] j1
  have a: "resolveArgs 1 demo_kitchen demo_chef [Some ?d1] [] = (Returned [JNum 20], demo_chef)"
    by simp
  from subpath_extraction [OF t(2) p2, of "[]" "[]"] j2 i2
  have b: "resolveArgs 1 demo_kitchen demo_chef [Some ?d2] [] =
       (Threw (ContractViolation ''Root.a.c''), demo_chef)"
    by simp
  have c: "(\<lambda>(r, s). (r, prepare_calls s)) (prepare 2 demo_kitchen demo_chef ''Pick'') =
       (Returned (JArr [JNum 20]), [9])"
    by code_simp
  have d: "(\<lambda>(r, s). (r, prepare_calls s)) (prepare 2 demo_kitchen demo_chef ''PickBad'') =
       (Threw (ContractViolation ''Root.a.c''), [])"
    by code_simp
  from p0 a b c d show ?thesis by simp
qed






text \<open>
  C9. In explain mode the plates account for the running total in the original order:
  the first plate starts at 0, every other plate starts where the plate before it
  ended, a plate that is forced or included ends at its start plus its cost, a dropped
  plate ends where it started, and \<open>totalTokens\<close> is the sum of the costs of the plates
  that are not dropped, which is where the last plate ends when there is a plate.
\<close>

theorem accounting_chain:
  assumes "cook n K s options = (Returned (Explained res), s')"
  shows "(\<forall>i<length (plates res).
            runningTotalBefore (plates res ! i) =
              (if i = 0 then 0 else runningTotalAfter (plates res ! (i - 1))) \<and>
            (decision (plates res ! i) \<in> {ForcedInclude, Included} \<longrightarrow>
               runningTotalAfter (plates res ! i) =
                 runningTotalBefore (plates res ! i) + cost (plates res ! i)) \<and>
            (decision (plates res ! i) = Dropped \<longrightarrow>
               runningTotalAfter (plates res ! i) = runningTotalBefore (plates res ! i)))
       \<and> totalTokens res = sum_list (map cost (filter (\<lambda>p. decision p \<noteq> Dropped) (plates res)))
       \<and> (plates res \<noteq> [] \<longrightarrow> totalTokens res = runningTotalAfter (last (plates res)))"
proof -
  from assms obtain items where
    r: "Explained res = plateAll (budgetOf options) (explainOf options)
               (fst (selectPlan (budgetOf options) items)) items"
    by (rule cook_Returned)
  from plateAll_explained(2) [OF r [symmetric]]
  have c: "chain_ok (totalTokens res) (plates res)" .
  show ?thesis
  proof (intro conjI allI impI)
    fix i assume i: "i < length (plates res)"
    from c i show "runningTotalBefore (plates res ! i) =
              (if i = 0 then 0 else runningTotalAfter (plates res ! (i - 1)))"
      unfolding chain_ok_def by blast
    from c i have a: "runningTotalAfter (plates res ! i) =
          runningTotalBefore (plates res ! i) +
          (if decision (plates res ! i) = Dropped then 0 else cost (plates res ! i))"
      unfolding chain_ok_def by blast
    { assume "decision (plates res ! i) \<in> {ForcedInclude, Included}"
      with a show "runningTotalAfter (plates res ! i) =
                 runningTotalBefore (plates res ! i) + cost (plates res ! i)" by auto }
    { assume "decision (plates res ! i) = Dropped"
      with a show "runningTotalAfter (plates res ! i) = runningTotalBefore (plates res ! i)" by simp }
  next
    from c show "totalTokens res = sum_list (map cost (filter (\<lambda>p. decision p \<noteq> Dropped) (plates res)))"
      unfolding chain_ok_def by blast
  next
    assume "plates res \<noteq> []"
    with c show "totalTokens res = runningTotalAfter (last (plates res))"
      unfolding chain_ok_def by simp
  qed
qed

theorem accounting_chain_witness:
  "\<exists>res s'.
     cook 3 demo_kitchen demo_chef (Some (demo_options [''Sys'', ''Hist'', ''Doc''] (Some 5)))
       = (Returned (Explained res), s')
     \<and> map decision (plates res) = [ForcedInclude, Included, Dropped]
     \<and> map cost (plates res) = [2, 3, 0]
     \<and> map runningTotalBefore (plates res) = [0, 2, 5]
     \<and> map runningTotalAfter (plates res) = [2, 5, 5]
     \<and> totalTokens res = sum_list (map cost (filter (\<lambda>p. decision p \<noteq> Dropped) (plates res)))
     \<and> totalTokens res = runningTotalAfter (last (plates res))
     \<and> totalTokens res = 5"
proof -
  let ?c = "cook 3 demo_kitchen demo_chef (Some (demo_options [''Sys'', ''Hist'', ''Doc''] (Some 5)))"
  have "case ?c of
          (Returned (Explained res), s') \<Rightarrow>
            map decision (plates res) = [ForcedInclude, Included, Dropped]
            \<and> map cost (plates res) = [2, 3, 0]
            \<and> map runningTotalBefore (plates res) = [0, 2, 5]
            \<and> map runningTotalAfter (plates res) = [2, 5, 5]
            \<and> totalTokens res = 5
        | _ \<Rightarrow> False"
    by code_simp
  then obtain res s' where c: "?c = (Returned (Explained res), s')"
    and v: "map decision (plates res) = [ForcedInclude, Included, Dropped]
            \<and> map cost (plates res) = [2, 3, 0]
            \<and> map runningTotalBefore (plates res) = [0, 2, 5]
            \<and> map runningTotalAfter (plates res) = [2, 5, 5]
            \<and> totalTokens res = 5"
    by (rule explained_caseE)
  from v have ne: "plates res \<noteq> []" by auto
  from accounting_chain [OF c] ne
  have "totalTokens res = sum_list (map cost (filter (\<lambda>p. decision p \<noteq> Dropped) (plates res)))"
    and "totalTokens res = runningTotalAfter (last (plates res))"
    by blast+
  with c v show ?thesis by (intro exI [where x = res] exI [where x = s']) simp
qed



end
